theory Spec2Isabelle
  imports Main "HOL-Library.Word"
begin

unbundle bit_operations_syntax

section \<open>Bytes, buffers and JavaScript strings\<close>

text \<open>
  A Node.js \<open>Buffer\<close> is a fixed-length array of bytes.  A JavaScript string is a
  sequence of UTF-16 code units; \<open>.length\<close> counts code units.  JavaScript numbers
  are IEEE doubles; every offset, position and length that occurs before a call returns
  is an integer far below \<open>2^53\<close>, where doubles are exact, so they are modelled by
  \<open>nat\<close> and \<open>int\<close>.
\<close>

type_synonym byte = "8 word"
type_synonym buffer = "byte list"
type_synonym jsstring = "nat list"

text \<open>String literals of the source, as code units.\<close>

definition js :: "string \<Rightarrow> jsstring" where
  "js s = map of_char s"

text \<open>
  \<open>buffer.slice(start, end)\<close> with \<open>0 \<le> start\<close>: both bounds are clamped to the
  buffer's length, an empty range gives an empty buffer.
\<close>

definition slice :: "buffer \<Rightarrow> nat \<Rightarrow> nat \<Rightarrow> buffer" where
  "slice buf start stop = take (stop - start) (drop start buf)"

text \<open>
  \<open>buf.toString('utf8')\<close>: the UTF-8 decoder with replacement.  An ill-formed
  sequence gives one U+FFFD for its maximal valid prefix and decoding resumes at the
  offending byte.  The state is the code point collected so far, the number of
  continuation bytes still needed and the range allowed for the next one.
\<close>

fun utf8_dec :: "nat \<Rightarrow> nat \<Rightarrow> nat \<Rightarrow> nat \<Rightarrow> nat list \<Rightarrow> nat list" where
  "utf8_dec cp needed lower upper [] = (if needed \<noteq> 0 then [0xFFFD] else [])"
| "utf8_dec cp needed lower upper (b # bs) =
     (if needed \<noteq> 0 \<and> lower \<le> b \<and> b \<le> upper then
        (if needed = 1 then (cp * 64 + b mod 64) # utf8_dec 0 0 0x80 0xBF bs
         else utf8_dec (cp * 64 + b mod 64) (needed - 1) 0x80 0xBF bs)
      else
        (if needed \<noteq> 0 then [0xFFFD] else []) @
        (if b \<le> 0x7F then b # utf8_dec 0 0 0x80 0xBF bs
         else if 0xC2 \<le> b \<and> b \<le> 0xDF then utf8_dec (b mod 32) 1 0x80 0xBF bs
         else if 0xE0 \<le> b \<and> b \<le> 0xEF then
           utf8_dec (b mod 16) 2 (if b = 0xE0 then 0xA0 else 0x80)
             (if b = 0xED then 0x9F else 0xBF) bs
         else if 0xF0 \<le> b \<and> b \<le> 0xF4 then
           utf8_dec (b mod 8) 3 (if b = 0xF0 then 0x90 else 0x80)
             (if b = 0xF4 then 0x8F else 0xBF) bs
         else 0xFFFD # utf8_dec 0 0 0x80 0xBF bs))"

text \<open>A code point as UTF-16: a surrogate pair above the basic plane.\<close>

definition utf16_units :: "nat \<Rightarrow> nat list" where
  "utf16_units cp =
     (if cp < 0x10000 then [cp]
      else [0xD800 + (cp - 0x10000) div 1024, 0xDC00 + (cp - 0x10000) mod 1024])"

definition toString_utf8 :: "buffer \<Rightarrow> jsstring" where
  "toString_utf8 buf = concat (map utf16_units (utf8_dec 0 0 0x80 0xBF (map unat buf)))"

section \<open>The decompressor\<close>

text \<open>
  The mutable locals of \<open>decompressLZH\<close>: the buffer \<open>output\<close> (here
  \<open>outputBuf\<close>), \<open>outputPos\<close> and \<open>inputPos\<close>.  Two ghost fields record the
  history of the run and influence nothing: \<open>reads\<close> holds every index at which
  \<open>compressedData\<close> was read, and \<open>stores\<close> every index at which a byte was stored
  into \<open>output\<close>.
\<close>

record lzh =
  outputBuf :: buffer
  outputPos :: nat
  inputPos :: nat
  reads :: "nat list"
  stores :: "nat list"

text \<open>
  The errors Node's \<open>readUInt16LE\<close> and \<open>readUInt32LE\<close> raise (both are
  \<open>RangeError\<close>s): \<open>ERR_BUFFER_OUT_OF_BOUNDS\<close> when the buffer is shorter than the
  integer, \<open>ERR_OUT_OF_RANGE\<close> when the offset is beyond the last position where it fits.
\<close>

datatype error = ERR_OUT_OF_RANGE | ERR_BUFFER_OUT_OF_BOUNDS

text \<open>
  How a piece of the decompressor ends: it returns, it throws, or it is still inside
  the loop \<open>while (rpos < 0)\<close> after the given number of iterations.  The last two
  keep the state reached.
\<close>

datatype 'a outcome = Returns 'a | Throws error lzh | Spins lzh

text \<open>
  \<open>output[outputPos++] = v\<close>.  \<open>output\<close> is a typed array: a store at an index
  outside it is dropped and the array keeps its length.
\<close>

definition put :: "byte \<Rightarrow> lzh \<Rightarrow> lzh" where
  "put v st =
     (if outputPos st < length (outputBuf st)
      then st\<lparr>outputBuf := (outputBuf st)[outputPos st := v],
              stores := outputPos st # stores st,
              outputPos := outputPos st + 1\<rparr>
      else st\<lparr>outputPos := outputPos st + 1\<rparr>)"

text \<open>
  \<open>compressedData[inputPos++]\<close>.  An index outside the buffer reads \<open>undefined\<close>,
  which behaves as 0 in both uses the source makes of the value
  (\<open>(undefined >> i) & 1\<close> is 0, and \<open>undefined\<close> stored into a typed array is 0).
\<close>

definition byte_at :: "buffer \<Rightarrow> nat \<Rightarrow> byte" where
  "byte_at buf i = (if i < length buf then buf ! i else 0)"

definition next_byte :: "buffer \<Rightarrow> lzh \<Rightarrow> byte \<times> lzh" where
  "next_byte compressedData st =
     (byte_at compressedData (inputPos st),
      st\<lparr>reads := inputPos st # reads st, inputPos := inputPos st + 1\<rparr>)"

text \<open>\<open>buf.readUInt16LE(offset)\<close>: throws unless both bytes are inside the buffer.\<close>

definition readUInt16LE :: "buffer \<Rightarrow> nat \<Rightarrow> error + int" where
  "readUInt16LE buf offset =
     (if offset + 1 < length buf
      then Inr (uint (buf ! offset) + uint (buf ! (offset + 1)) * 2 ^ 8)
      else if length buf < 2 then Inl ERR_BUFFER_OUT_OF_BOUNDS else Inl ERR_OUT_OF_RANGE)"

text \<open>The two copy loops \<open>for (let j = 0; j < rlen; j++)\<close>.\<close>

function space_loop :: "int \<Rightarrow> int \<Rightarrow> lzh \<Rightarrow> lzh" where
  "space_loop j rlen st = (if j < rlen then space_loop (j + 1) rlen (put 0x20 st) else st)"
  by pat_completeness auto
termination
  by (relation "measure (\<lambda>(j, rlen, st). nat (rlen - j))") auto

function copy_loop :: "int \<Rightarrow> int \<Rightarrow> nat \<Rightarrow> lzh \<Rightarrow> lzh" where
  "copy_loop j rlen copyPos st =
     (if j < rlen
      then copy_loop (j + 1) rlen (copyPos + 1) (put (byte_at (outputBuf st) copyPos) st)
      else st)"
  by pat_completeness auto
termination
  by (relation "measure (\<lambda>(j, rlen, copyPos, st). nat (rlen - j))") auto

text \<open>
  \<open>while (rpos < 0) { output[outputPos++] = 0x20; rlen--; }\<close>.  \<open>rpos\<close> is a
  \<open>const\<close> and the body does not change it, so the loop may run forever.  The first
  argument bounds the iterations observed: when they are used up the loop is reported
  as still spinning.  (In the source \<open>outputPos\<close> and \<open>rlen\<close> stop changing once they
  reach \<open>2^53\<close> in size; long before that every store falls outside the buffer and is
  dropped, so the buffer is the same.)
\<close>

fun pad_loop :: "nat \<Rightarrow> int \<Rightarrow> int \<Rightarrow> lzh \<Rightarrow> (int \<times> lzh) outcome" where
  "pad_loop fuel rpos rlen st =
     (if rpos < 0 then
        (case fuel of
           0 \<Rightarrow> Spins st
         | Suc fuel' \<Rightarrow> pad_loop fuel' rpos (rlen - 1) (put 0x20 st))
      else Returns (rlen, st))"

text \<open>The back-reference branch of a sub-operation (the \<open>else\<close> of \<open>isUncompressed\<close>).\<close>

definition back_reference :: "nat \<Rightarrow> buffer \<Rightarrow> lzh \<Rightarrow> lzh outcome" where
  "back_reference fuel compressedData st =
     (let st0 = st\<lparr>reads := (inputPos st + 1) # inputPos st # reads st\<rparr> in
      case readUInt16LE compressedData (inputPos st) of
        Inl e \<Rightarrow> Throws e st0
      | Inr pointer \<Rightarrow>
          (let st1 = st0\<lparr>inputPos := inputPos st + 2\<rparr>;
               rpos = int (outputPos st1) - (pointer AND 0x00ff)
                        - drop_bit 4 (pointer AND 0xf000);
               rlen = drop_bit 8 (pointer AND 0x0f00) + 3
           in if rpos + rlen < 0 then Returns (space_loop 0 rlen st1)
              else
                (let copyPos = nat (max 0 rpos) in
                 (case pad_loop fuel rpos rlen st1 of
                    Spins s \<Rightarrow> Spins s
                  | Throws e s \<Rightarrow> Throws e s
                  | Returns (rlen', st2) \<Rightarrow>
                      (if rlen' > 0 then Returns (copy_loop 0 rlen' copyPos st2)
                       else Returns st2)))))"

text \<open>One sub-operation: the body of the \<open>for\<close> loop.\<close>

definition sub_operation :: "nat \<Rightarrow> buffer \<Rightarrow> byte \<Rightarrow> nat \<Rightarrow> lzh \<Rightarrow> lzh outcome" where
  "sub_operation fuel compressedData format i st =
     (let isUncompressed = drop_bit i (uint format) AND 0x01 in
      if isUncompressed \<noteq> 0 then
        (case next_byte compressedData st of (v, st') \<Rightarrow> Returns (put v st'))
      else back_reference fuel compressedData st)"

text \<open>
  \<open>for (let i = 0; i < 8 && outputPos < originalSize &&
  inputPos < compressedData.length - 2; i++)\<close>
\<close>

function for_loop :: "nat \<Rightarrow> buffer \<Rightarrow> nat \<Rightarrow> byte \<Rightarrow> nat \<Rightarrow> lzh \<Rightarrow> lzh outcome" where
  "for_loop fuel compressedData originalSize format i st =
     (if i < 8 \<and> outputPos st < originalSize
         \<and> int (inputPos st) < int (length compressedData) - 2
      then (case sub_operation fuel compressedData format i st of
              Returns st' \<Rightarrow> for_loop fuel compressedData originalSize format (i + 1) st'
            | Throws e s \<Rightarrow> Throws e s
            | Spins s \<Rightarrow> Spins s)
      else Returns st)"
  by pat_completeness auto
termination
  by (relation "measure (\<lambda>(fuel, compressedData, originalSize, format, i, st). 8 - i)") auto

text \<open>The position in the input never moves backwards.\<close>

declare space_loop.simps [simp del] copy_loop.simps [simp del] pad_loop.simps [simp del]
  for_loop.simps [simp del]

lemma inputPos_put [simp]: "inputPos (put v st) = inputPos st"
  by (simp add: put_def)

lemma inputPos_space_loop [simp]: "inputPos (space_loop j rlen st) = inputPos st"
  by (induction j rlen st rule: space_loop.induct) (subst space_loop.simps, simp)

lemma inputPos_copy_loop [simp]: "inputPos (copy_loop j rlen copyPos st) = inputPos st"
  by (induction j rlen copyPos st rule: copy_loop.induct) (subst copy_loop.simps, simp)

lemma inputPos_pad_loop:
  "pad_loop fuel rpos rlen st = Returns (rlen', st') \<Longrightarrow> inputPos st' = inputPos st"
  by (induction fuel rpos rlen st rule: pad_loop.induct)
     (subst (asm) pad_loop.simps, auto split: if_splits nat.splits)

lemma inputPos_sub_operation:
  "sub_operation fuel compressedData format i st = Returns st' \<Longrightarrow> inputPos st < inputPos st'"
  by (auto simp: sub_operation_def back_reference_def next_byte_def Let_def
        dest: inputPos_pad_loop split: if_splits sum.splits outcome.splits prod.splits)

lemma inputPos_for_loop:
  "for_loop fuel compressedData originalSize format i st = Returns st' \<Longrightarrow>
     inputPos st \<le> inputPos st'"
proof (induction fuel compressedData originalSize format i st rule: for_loop.induct)
  case (1 fuel compressedData originalSize format i st)
  show ?case
  proof (cases "i < 8 \<and> outputPos st < originalSize
                 \<and> int (inputPos st) < int (length compressedData) - 2")
    case False
    with "1.prems" show ?thesis by (subst (asm) for_loop.simps) simp
  next
    case True
    with "1.prems" obtain s where
      s: "sub_operation fuel compressedData format i st = Returns s"
      and r: "for_loop fuel compressedData originalSize format (i + 1) s = Returns st'"
      by (subst (asm) for_loop.simps) (auto split: outcome.splits)
    from "1.IH" [OF True s r] inputPos_sub_operation [OF s] show ?thesis by simp
  qed
qed

text \<open>
  The round loop
  \<open>while (outputPos < originalSize && inputPos < compressedData.length)\<close>:
  each round reads the control byte and runs the sub-operations.
\<close>

function while_loop :: "nat \<Rightarrow> buffer \<Rightarrow> nat \<Rightarrow> lzh \<Rightarrow> lzh outcome" where
  "while_loop fuel compressedData originalSize st =
     (if outputPos st < originalSize \<and> inputPos st < length compressedData
      then (case next_byte compressedData st of
              (format, st') \<Rightarrow>
                (case for_loop fuel compressedData originalSize format 0 st' of
                   Returns st'' \<Rightarrow> while_loop fuel compressedData originalSize st''
                 | Throws e s \<Rightarrow> Throws e s
                 | Spins s \<Rightarrow> Spins s))
      else Returns st)"
  by pat_completeness auto
termination
  by (relation "measure (\<lambda>(fuel, compressedData, originalSize, st).
                   length compressedData - inputPos st)")
     (auto simp: next_byte_def dest!: inputPos_for_loop)

declare while_loop.simps [simp del]

text \<open>
  \<open>decompressLZH\<close> up to the decoding of the result: \<open>Buffer.alloc\<close> gives a
  zero-filled buffer of \<open>originalSize\<close> bytes (the allocation is taken to succeed).
\<close>

definition lzh_init :: "nat \<Rightarrow> lzh" where
  "lzh_init originalSize =
     \<lparr>outputBuf = replicate originalSize 0, outputPos = 0, inputPos = 0,
      reads = [], stores = []\<rparr>"

definition lzh_run :: "nat \<Rightarrow> buffer \<Rightarrow> nat \<Rightarrow> lzh outcome" where
  "lzh_run fuel compressedData originalSize =
     while_loop fuel compressedData originalSize (lzh_init originalSize)"

text \<open>
  What the caller of \<open>decompressLZH\<close> sees: the decoded string when the call
  returns, the exception when it throws, and \<open>None\<close> when it is still spinning
  after \<open>fuel\<close> iterations of the padding loop.
\<close>

definition decompressLZH :: "nat \<Rightarrow> buffer \<Rightarrow> nat \<Rightarrow> (error + jsstring) option" where
  "decompressLZH fuel compressedData originalSize =
     (case lzh_run fuel compressedData originalSize of
        Returns st \<Rightarrow> Some (Inr (toString_utf8 (outputBuf st)))
      | Throws e s \<Rightarrow> Some (Inl e)
      | Spins s \<Rightarrow> None)"

text \<open>The state a run has reached, however it ended.\<close>

fun state_of :: "lzh outcome \<Rightarrow> lzh" where
  "state_of (Returns s) = s"
| "state_of (Throws e s) = s"
| "state_of (Spins s) = s"

text \<open>
  A state is in bounds when the output buffer has the size it was allocated with, every
  read of the input was at an index inside the input and every store into the output
  at an index inside the output.
\<close>

definition lzh_safe :: "buffer \<Rightarrow> nat \<Rightarrow> lzh \<Rightarrow> bool" where
  "lzh_safe d n st \<longleftrightarrow>
     length (outputBuf st) = n
     \<and> (\<forall>i \<in> set (reads st). i < length d)
     \<and> (\<forall>i \<in> set (stores st). i < n)"

definition safe_outcome :: "buffer \<Rightarrow> nat \<Rightarrow> lzh outcome \<Rightarrow> bool" where
  "safe_outcome d n r =
     (case r of
        Returns s \<Rightarrow> lzh_safe d n s
      | Throws e s \<Rightarrow> False
      | Spins s \<Rightarrow> lzh_safe d n s)"



section \<open>The archive parser\<close>

definition PACKING_METHOD_UNCOMPRESSED :: nat where
  "PACKING_METHOD_UNCOMPRESSED = 0x00000000"

definition PACKING_METHOD_PACKED :: nat where
  "PACKING_METHOD_PACKED = 0x43707273"

definition PACKING_METHOD_PRODUCT :: nat where
  "PACKING_METHOD_PRODUCT = 0x56657273"

text \<open>
  \<open>readCString\<close>: the loop \<open>while (end < buffer.length && buffer[end] !== 0) end++\<close>,
  then \<open>buffer.toString('utf8', offset, end)\<close>.  The result object
  \<open>{value, newOffset}\<close> is a pair.  The source counts in doubles, which are exact up
  to \<open>2^53\<close>: the model is the source for every offset below \<open>2^53\<close> (a buffer is
  always shorter than that), and says nothing of the source for larger offsets, where
  \<open>end + 1\<close> is rounded.
\<close>

function scan_end :: "buffer \<Rightarrow> nat \<Rightarrow> nat" where
  "scan_end buf e = (if e < length buf \<and> buf ! e \<noteq> 0 then scan_end buf (e + 1) else e)"
  by pat_completeness auto
termination
  by (relation "measure (\<lambda>(buf, e). length buf - e)") auto

declare scan_end.simps [simp del]

definition readCString :: "buffer \<Rightarrow> nat \<Rightarrow> jsstring \<times> nat" where
  "readCString buf offset =
     (let e = scan_end buf offset in (toString_utf8 (slice buf offset e), e + 1))"

text \<open>\<open>buf.readUInt32LE(offset)\<close>: throws unless all four bytes are inside the buffer.\<close>

definition readUInt32LE :: "buffer \<Rightarrow> nat \<Rightarrow> error + nat" where
  "readUInt32LE buf offset =
     (if offset + 3 < length buf
      then Inr (unat (buf ! offset) + unat (buf ! (offset + 1)) * 2 ^ 8
                + unat (buf ! (offset + 2)) * 2 ^ 16 + unat (buf ! (offset + 3)) * 2 ^ 24)
      else if length buf < 4 then Inl ERR_BUFFER_OUT_OF_BOUNDS else Inl ERR_OUT_OF_RANGE)"

record HeaderEntry =
  fileName :: jsstring
  packingMethod :: nat
  originalSize :: nat
  reserved :: nat
  timeStamp :: nat
  dataSize :: nat
  newOffset :: nat

definition readHeaderEntry :: "buffer \<Rightarrow> nat \<Rightarrow> error + HeaderEntry" where
  "readHeaderEntry buf offset =
     (case readCString buf offset of
        (name, offset0) \<Rightarrow>
     (case readUInt32LE buf offset0 of Inl e \<Rightarrow> Inl e | Inr pm \<Rightarrow>
     (case readUInt32LE buf (offset0 + 4) of Inl e \<Rightarrow> Inl e | Inr os \<Rightarrow>
     (case readUInt32LE buf (offset0 + 8) of Inl e \<Rightarrow> Inl e | Inr rs \<Rightarrow>
     (case readUInt32LE buf (offset0 + 12) of Inl e \<Rightarrow> Inl e | Inr ts \<Rightarrow>
     (case readUInt32LE buf (offset0 + 16) of Inl e \<Rightarrow> Inl e | Inr ds \<Rightarrow>
        Inr \<lparr>fileName = name, packingMethod = pm, originalSize = os, reserved = rs,
             timeStamp = ts, dataSize = ds, newOffset = offset0 + 20\<rparr>))))))"

text \<open>
  \<open>readProperty\<close>: \<open>name\<close> and \<open>value\<close> are \<open>null\<close> when the name read is
  the empty string (the only falsy string).
\<close>

definition readProperty :: "buffer \<Rightarrow> nat \<Rightarrow> jsstring option \<times> jsstring option \<times> nat" where
  "readProperty buf offset =
     (case readCString buf offset of
        (name, offset1) \<Rightarrow>
          if name = [] then (None, None, offset1)
          else (case readCString buf offset1 of
                  (v, offset2) \<Rightarrow> (Some name, Some v, offset2)))"

lemma utf8_dec_Nil [simp]: "utf8_dec cp 0 lower upper [] = []"
  by simp

lemma toString_utf8_Nil [simp]: "toString_utf8 [] = []"
  by (simp add: toString_utf8_def)

lemma scan_end_ge: "e \<le> scan_end buf e"
  by (induction buf e rule: scan_end.induct) (subst scan_end.simps, auto)

lemma readCString_offset: "readCString buf offset = (v, offset') \<Longrightarrow> offset < offset'"
  using scan_end_ge [of offset buf] by (auto simp: readCString_def Let_def)

lemma readCString_nonempty:
  "readCString buf offset = (v, offset') \<Longrightarrow> v \<noteq> [] \<Longrightarrow> offset < length buf"
  by (rule ccontr) (auto simp: readCString_def Let_def slice_def)

lemma readProperty_measure:
  assumes "readProperty buf offset = (name, v, offset')" and "name \<noteq> None"
  shows "length buf - offset' < length buf - offset"
proof -
  from assms obtain n off1 w where n: "readCString buf offset = (n, off1)" "n \<noteq> []"
    and w: "readCString buf off1 = (w, offset')"
    by (auto simp: readProperty_def split: prod.splits if_splits)
  from readCString_nonempty [OF n] readCString_offset [OF n(1)] readCString_offset [OF w]
  show ?thesis by simp
qed

text \<open>The property block: \<open>while (true)\<close> until \<open>!prop.name\<close>.\<close>

function property_loop :: "buffer \<Rightarrow> nat \<Rightarrow> nat" where
  "property_loop buf offset =
     (case readProperty buf offset of
        (name, v, offset') \<Rightarrow> if name = None then offset' else property_loop buf offset')"
  by pat_completeness auto
termination
  by (relation "measure (\<lambda>(buf, offset). length buf - offset)")
     (auto intro: readProperty_measure [OF sym])

declare property_loop.simps [simp del]

lemma readUInt32LE_Inr: "readUInt32LE buf offset = Inr v \<Longrightarrow> offset + 4 \<le> length buf"
  by (auto simp: readUInt32LE_def split: if_splits)

lemma readHeaderEntry_offset:
  assumes "readHeaderEntry buf offset = Inr h"
  shows "offset < newOffset h" and "newOffset h \<le> length buf"
proof -
  obtain name offset0 where c: "readCString buf offset = (name, offset0)"
    by (cases "readCString buf offset")
  with assms obtain ds where "readUInt32LE buf (offset0 + 16) = Inr ds"
    and h: "newOffset h = offset0 + 20"
    by (auto simp: readHeaderEntry_def split: sum.splits)
  from readUInt32LE_Inr [OF this(1)] h readCString_offset [OF c]
  show "offset < newOffset h" and "newOffset h \<le> length buf" by simp_all
qed

lemma readHeaderEntry_measure:
  "readHeaderEntry buf offset = Inr h \<Longrightarrow> length buf - newOffset h < length buf - offset"
  using readHeaderEntry_offset [of buf offset h] by simp

text \<open>
  The entry table: \<open>while (true)\<close> reads header entries and pushes them until one
  has an empty \<open>fileName\<close>.  The result is the table and the offset after the marker.
\<close>

function table_loop ::
  "buffer \<Rightarrow> nat \<Rightarrow> HeaderEntry list \<Rightarrow> error + HeaderEntry list \<times> nat" where
  "table_loop buf offset entries =
     (case readHeaderEntry buf offset of
        Inl e \<Rightarrow> Inl e
      | Inr headerEntry \<Rightarrow>
          if fileName headerEntry = [] then Inr (entries, newOffset headerEntry)
          else table_loop buf (newOffset headerEntry) (entries @ [headerEntry]))"
  by pat_completeness auto
termination
  by (relation "measure (\<lambda>(buf, offset, entries). length buf - offset)")
     (auto intro: readHeaderEntry_measure)

declare table_loop.simps [simp del]

text \<open>
  The string operations of the extractor.  \<open>toLowerCase\<close> is modelled on the letters
  A to Z: no other character has a lower-case form that contains \<open>.\<close>, \<open>c\<close> or
  \<open>p\<close>, so the two \<open>endsWith\<close> tests below, the only use of the lower-cased name,
  are the same as in the source.
\<close>

definition toLowerCase :: "jsstring \<Rightarrow> jsstring" where
  "toLowerCase s = map (\<lambda>c. if 0x41 \<le> c \<and> c \<le> 0x5A then c + 0x20 else c) s"

definition endsWith :: "jsstring \<Rightarrow> jsstring \<Rightarrow> bool" where
  "endsWith s suffix \<longleftrightarrow>
     length suffix \<le> length s \<and> drop (length s - length suffix) s = suffix"

text \<open>\<open>s.split(sep)\<close> for a one-character separator: never an empty array.\<close>

fun split_on :: "nat \<Rightarrow> jsstring \<Rightarrow> jsstring list" where
  "split_on sep [] = [[]]"
| "split_on sep (c # cs) =
     (if c = sep then [] # split_on sep cs
      else (case split_on sep cs of
              [] \<Rightarrow> [[c]]
            | l # ls \<Rightarrow> (c # l) # ls))"

text \<open>\<open>fileName.split(/[\\/]/).pop()\<close>: what follows the last slash or backslash.\<close>

definition basename :: "jsstring \<Rightarrow> jsstring" where
  "basename s = rev (takeWhile (\<lambda>c. c \<noteq> 0x5C \<and> c \<noteq> 0x2F) (rev s))"

text \<open>The test on the entry's name: a script file, by its extension.\<close>

definition script_name :: "jsstring \<Rightarrow> bool" where
  "script_name s \<longleftrightarrow>
     endsWith (toLowerCase s) (js ''.c'') \<or> endsWith (toLowerCase s) (js ''.cpp'')"

record ExtractedFile =
  path :: jsstring
  name :: jsstring
  content :: jsstring
  lines :: "jsstring list"
  size_f :: nat

definition make_file :: "HeaderEntry \<Rightarrow> jsstring \<Rightarrow> ExtractedFile" where
  "make_file entry content' =
     \<lparr>path = fileName entry, name = basename (fileName entry), content = content',
      lines = split_on 0x0A content', size_f = length content'\<rparr>"

text \<open>How a call of \<open>parse\<close> ends.\<close>

datatype status = Done | Thrown error | Spinning

text \<open>
  The loop \<open>for (const entry of entries)\<close>: the running data offset and
  \<open>this.files\<close>, to which the records are pushed.
\<close>

fun extract_files ::
  "nat \<Rightarrow> buffer \<Rightarrow> HeaderEntry list \<Rightarrow> nat \<Rightarrow> ExtractedFile list
     \<Rightarrow> status \<times> ExtractedFile list" where
  "extract_files fuel buf [] offset files' = (Done, files')"
| "extract_files fuel buf (entry # rest) offset files' =
     (if script_name (fileName entry)
      then
        (let fileData = slice buf offset (offset + dataSize entry);
             offset' = offset + dataSize entry
         in if packingMethod entry = PACKING_METHOD_UNCOMPRESSED
            then extract_files fuel buf rest offset'
                   (files' @ [make_file entry (toString_utf8 fileData)])
            else if packingMethod entry = PACKING_METHOD_PACKED
            then (case decompressLZH fuel fileData (originalSize entry) of
                    None \<Rightarrow> (Spinning, files')
                  | Some (Inl e) \<Rightarrow> (Thrown e, files')
                  | Some (Inr content') \<Rightarrow>
                      extract_files fuel buf rest offset' (files' @ [make_file entry content']))
            else extract_files fuel buf rest offset' files')
      else extract_files fuel buf rest (offset + dataSize entry) files')"

text \<open>
  The parser object: \<open>this.pboPath\<close> and \<open>this.files\<close>.  \<open>parse\<close> takes the
  bytes \<open>fs.readFile(this.pboPath)\<close> delivered and the object, and gives how the
  call ended and the object afterwards; the value returned is \<open>this.files\<close> itself.
  The \<open>console\<close> output is not part of the model.
\<close>

record PBOParser =
  pboPath :: string
  files :: "ExtractedFile list"

definition new_PBOParser :: "string \<Rightarrow> PBOParser" where
  "new_PBOParser p = \<lparr>pboPath = p, files = []\<rparr>"

text \<open>Lines 64 to 91: the first entry, the property block and the entry table.\<close>

definition build_table :: "buffer \<Rightarrow> error + HeaderEntry list \<times> nat" where
  "build_table buf =
     (case readHeaderEntry buf 0 of
        Inl e \<Rightarrow> Inl e
      | Inr firstEntry \<Rightarrow>
          if packingMethod firstEntry = PACKING_METHOD_PRODUCT
          then table_loop buf (property_loop buf (newOffset firstEntry)) []
          else if fileName firstEntry \<noteq> []
          then table_loop buf (newOffset firstEntry) [firstEntry]
          else table_loop buf (newOffset firstEntry) [])"

definition parse :: "nat \<Rightarrow> buffer \<Rightarrow> PBOParser \<Rightarrow> status \<times> PBOParser" where
  "parse fuel buf this =
     (case build_table buf of
        Inl e \<Rightarrow> (Thrown e, this)
      | Inr (entries, offset) \<Rightarrow>
          (case extract_files fuel buf entries offset (files this) of
             (s, files') \<Rightarrow> (s, this\<lparr>files := files'\<rparr>)))"

text \<open>
  The two things \<open>build_table\<close> takes from the first header entry: the entries the
  table starts with, and the offset at which the loop starts reading.
\<close>

definition first_entries :: "HeaderEntry \<Rightarrow> HeaderEntry list" where
  "first_entries firstEntry =
     (if packingMethod firstEntry \<noteq> PACKING_METHOD_PRODUCT \<and> fileName firstEntry \<noteq> []
      then [firstEntry] else [])"

definition table_start :: "buffer \<Rightarrow> HeaderEntry \<Rightarrow> nat" where
  "table_start buf firstEntry =
     (if packingMethod firstEntry = PACKING_METHOD_PRODUCT
      then property_loop buf (newOffset firstEntry) else newOffset firstEntry)"


text \<open>
  \<open>entries_at buf offset hs offset'\<close>: the header entries \<open>hs\<close> lie one after the
  other in the buffer, the first at \<open>offset\<close>, and the last ends at \<open>offset'\<close>.
\<close>

fun entries_at :: "buffer \<Rightarrow> nat \<Rightarrow> HeaderEntry list \<Rightarrow> nat \<Rightarrow> bool" where
  "entries_at buf offset [] offset' \<longleftrightarrow> offset' = offset"
| "entries_at buf offset (h # hs) offset' \<longleftrightarrow>
     readHeaderEntry buf offset = Inr h \<and> entries_at buf (newOffset h) hs offset'"

section \<open>The binary layout, for writing archives down\<close>

text \<open>
  A header entry on disk: the name, a zero byte, and five 32-bit little-endian integers
  (packing method, original size, reserved, time stamp, data size).
\<close>

definition le32 :: "nat \<Rightarrow> buffer" where
  "le32 n = [of_nat n, of_nat (n div 2 ^ 8), of_nat (n div 2 ^ 16), of_nat (n div 2 ^ 24)]"

definition bytes_of :: "string \<Rightarrow> buffer" where
  "bytes_of s = map of_char s"

definition header_bytes :: "buffer \<Rightarrow> nat \<Rightarrow> nat \<Rightarrow> nat \<Rightarrow> nat \<Rightarrow> nat \<Rightarrow> buffer" where
  "header_bytes fname pm os rs ts ds =
     fname @ [0] @ le32 pm @ le32 os @ le32 rs @ le32 ts @ le32 ds"

definition boundary_bytes :: buffer where
  "boundary_bytes = header_bytes [] 0 0 0 0 0"

text \<open>
  The header region of an archive.  An entry of the table is given by its name and its
  five integers; the table is the entries followed by the boundary marker.  The property
  block behind a product entry is the pairs of a name and a value, each closed by a zero
  byte, and one more zero byte (the empty name).  A name is well formed when it is not
  empty and has no zero byte.
\<close>

type_synonym entry_fields = "buffer \<times> nat \<times> nat \<times> nat \<times> nat \<times> nat"

definition entry_bytes :: "entry_fields \<Rightarrow> buffer" where
  "entry_bytes e = (case e of (fname, pm, os, rs, ts, ds) \<Rightarrow> header_bytes fname pm os rs ts ds)"

definition table_bytes :: "entry_fields list \<Rightarrow> buffer" where
  "table_bytes es = concat (map entry_bytes es) @ boundary_bytes"

definition property_bytes :: "(buffer \<times> buffer) list \<Rightarrow> buffer" where
  "property_bytes ps = concat (map (\<lambda>(key, v). key @ [0] @ v @ [0]) ps) @ [0]"

definition well_named :: "buffer \<Rightarrow> bool" where
  "well_named fname \<longleftrightarrow> fname \<noteq> [] \<and> 0 \<notin> set fname"

text \<open>Scenario A of the specification.\<close>

definition scenario_A :: buffer where
  "scenario_A =
     header_bytes (bytes_of ''test.c'') 0 5 0 0 5 @ boundary_bytes @ bytes_of ''hello''"

text \<open>
  Scenario C: \<open>a.c\<close> is packed with \<open>originalSize = 10\<close>, but its four compressed
  bytes yield a single byte; \<open>b.c\<close> is stored as it is.
\<close>

definition scenario_C :: buffer where
  "scenario_C =
     header_bytes (bytes_of ''a.c'') 0x43707273 10 0 0 4
     @ header_bytes (bytes_of ''b.c'') 0 2 0 0 2
     @ boundary_bytes
     @ [0xFF, 0x68, 0x69, 0x00] @ bytes_of ''ok''"

definition scenario_C_table :: "HeaderEntry list" where
  "scenario_C_table =
     [\<lparr>fileName = js ''a.c'', packingMethod = 0x43707273, originalSize = 10, reserved = 0,
       timeStamp = 0, dataSize = 4, newOffset = 24\<rparr>,
      \<lparr>fileName = js ''b.c'', packingMethod = 0, originalSize = 2, reserved = 0,
       timeStamp = 0, dataSize = 2, newOffset = 48\<rparr>]"

text \<open>
  A compressed stream on the all-literal path: each group of eight literal bytes behind
  a control byte with all eight bits set.
\<close>

definition literal_stream :: "buffer list \<Rightarrow> buffer" where
  "literal_stream gs = concat (map (\<lambda>g. 0xFF # g) gs)"

section \<open>Reading a null-terminated string\<close>

lemma scan_end_takeWhile:
  "scan_end buf e = e + length (takeWhile (\<lambda>b. b \<noteq> 0) (drop e buf))"
proof (induction buf e rule: scan_end.induct)
  case (1 buf e)
  show ?case
  proof (cases "e < length buf")
    case False
    then show ?thesis by (subst scan_end.simps) simp
  next
    case True
    then have d: "drop e buf = buf ! e # drop (e + 1) buf"
      by (simp add: Cons_nth_drop_Suc)
    show ?thesis
    proof (cases "buf ! e = 0")
      case True
      with \<open>e < length buf\<close> d show ?thesis by (subst scan_end.simps) simp
    next
      case False
      with \<open>e < length buf\<close> d "1.IH" show ?thesis by (subst scan_end.simps) simp
    qed
  qed
qed

lemma readCString_takeWhile:
  "readCString buf offset =
     (toString_utf8 (takeWhile (\<lambda>b. b \<noteq> 0) (drop offset buf)),
      offset + length (takeWhile (\<lambda>b. b \<noteq> 0) (drop offset buf)) + 1)"
  by (simp add: readCString_def Let_def slice_def scan_end_takeWhile takeWhile_eq_take [symmetric])

text \<open>
  Claim C10, as the code has it.  \<open>readCString\<close> is a total function: for every buffer
  and every offset below \<open>2^53\<close> it returns the bytes from \<open>offset\<close> up to the first
  zero byte or the end of the buffer, decoded as UTF-8, and \<open>newOffset\<close> is one past the
  place where the scan stopped, a number of at most \<open>2^53\<close> and so exact in the source.
  When no zero byte follows \<open>offset\<close>, \<open>newOffset\<close> is
  \<open>max offset buffer.length + 1\<close>: that is \<open>buffer.length + 1\<close> for an offset inside
  the buffer or at its end, and \<open>offset + 1\<close> for an offset beyond the end.  A call at
  or beyond the end gives the empty string, as a boundary marker's name does.
\<close>

theorem readCString_total:
  assumes "offset < 2 ^ 53" and "length buf < 2 ^ 53"
  shows "readCString buf offset =
     (toString_utf8 (takeWhile (\<lambda>b. b \<noteq> 0) (drop offset buf)),
      offset + length (takeWhile (\<lambda>b. b \<noteq> 0) (drop offset buf)) + 1)
   \<and> snd (readCString buf offset) \<le> 2 ^ 53
   \<and> (0 \<notin> set (drop offset buf) \<longrightarrow>
        snd (readCString buf offset) = max offset (length buf) + 1)
   \<and> (length buf \<le> offset \<longrightarrow> readCString buf offset = ([], offset + 1))"
proof (intro conjI impI)
  show "readCString buf offset =
     (toString_utf8 (takeWhile (\<lambda>b. b \<noteq> 0) (drop offset buf)),
      offset + length (takeWhile (\<lambda>b. b \<noteq> 0) (drop offset buf)) + 1)"
    by (rule readCString_takeWhile)
next
  have "length (takeWhile (\<lambda>b. b \<noteq> 0) (drop offset buf)) \<le> length buf - offset"
    using length_takeWhile_le [of "\<lambda>b. b \<noteq> 0" "drop offset buf"] by simp
  with assms show "snd (readCString buf offset) \<le> 2 ^ 53"
    by (simp add: readCString_takeWhile)
next
  assume "0 \<notin> set (drop offset buf)"
  then have tw: "takeWhile (\<lambda>b. b \<noteq> 0) (drop offset buf) = drop offset buf"
    by (intro takeWhile_eq_all_conv [THEN iffD2]) auto
  show "snd (readCString buf offset) = max offset (length buf) + 1"
    unfolding readCString_takeWhile tw by (simp add: max_def)
next
  assume "length buf \<le> offset"
  then show "readCString buf offset = ([], offset + 1)"
    by (simp add: readCString_takeWhile)
qed

theorem readCString_total_witness:
  "(2 :: nat) < 2 ^ 53 \<and> length [0x61, 0x62 :: byte] < 2 ^ 53
   \<and> snd (readCString [0x61, 0x62] 2) = 3 \<and> readCString [0x61, 0x62] 2 = ([], 3)
   \<and> (0 :: nat) < 2 ^ 53 \<and> length [0x61, 0x62, 0, 0x63 :: byte] < 2 ^ 53
   \<and> readCString [0x61, 0x62, 0, 0x63] 0 = ([0x61, 0x62], 3)"
  using readCString_total [of 2 "[0x61, 0x62]"] readCString_total [of 0 "[0x61, 0x62, 0, 0x63]"]
  by (simp add: toString_utf8_def utf16_units_def)

text \<open>
  Claim C10 as stated fails beyond the end of the buffer: in the one-byte buffer
  \<open>[0x61]\<close> no zero byte follows offset 3, and \<open>newOffset\<close> is 4, not
  \<open>buffer.length + 1 = 2\<close>.
\<close>

theorem readCString_beyond_counterexample:
  "0 \<notin> set (drop 3 [0x61 :: byte])
   \<and> snd (readCString [0x61] 3) \<noteq> length [0x61 :: byte] + 1"
  by (simp add: readCString_takeWhile)

section \<open>The padding loop never ends\<close>

text \<open>
  With \<open>rpos < 0\<close> the loop \<open>while (rpos < 0)\<close> is still running after any number
  of iterations; each has stored one space (while there was room) and moved
  \<open>outputPos\<close>.
\<close>

lemma pad_loop_spins:
  "rpos < 0 \<Longrightarrow> pad_loop fuel rpos rlen st = Spins ((put 0x20 ^^ fuel) st)"
proof (induction fuel arbitrary: rlen st)
  case 0
  then show ?case by (subst pad_loop.simps) simp
next
  case (Suc fuel)
  then show ?case by (subst pad_loop.simps) (simp add: funpow_swap1)
qed

lemma pad_loop_returns: "\<not> rpos < 0 \<Longrightarrow> pad_loop fuel rpos rlen st = Returns (rlen, st)"
  by (subst pad_loop.simps) simp

lemma replicate_numeral: "replicate (numeral k) x = x # replicate (pred_numeral k) x"
  by (simp add: numeral_eq_Suc)

lemmas lzh_eval = decompressLZH_def lzh_run_def lzh_init_def while_loop.simps next_byte_def
  byte_at_def for_loop.simps sub_operation_def back_reference_def readUInt16LE_def
  pad_loop_spins pad_loop_returns space_loop.simps copy_loop.simps Let_def put_def
  replicate_numeral

text \<open>
  Claim C1 at the input \<open>[0x00, 0x01, 0x00, 0x00]\<close> with \<open>originalSize = 1\<close>: the
  control byte 0 selects a back-reference, the pointer \<open>0x0001\<close> gives distance 1 and
  length 3, so \<open>rpos = -1\<close> and \<open>rpos + rlen = 2\<close>; the padding loop is entered and
  the call has not returned after any number of its iterations.
\<close>

theorem decompressLZH_spins: "decompressLZH fuel [0x00, 0x01, 0x00, 0x00] 1 = None"
  by (simp add: lzh_eval)

text \<open>
  Claim C3 at the input \<open>[0x01, 0x41, 0x02, 0x00, 0x00]\<close> with \<open>originalSize = 8\<close>:
  after the literal \<open>A\<close> the back-reference has distance 2 and length 3, so
  \<open>rpos = -1\<close>.  The claim has one space stored and two bytes copied from position
  0; the code stores spaces for as long as it is observed and never reaches the copy.
\<close>

theorem back_reference_never_copies:
  "decompressLZH fuel [0x01, 0x41, 0x02, 0x00, 0x00] 8 = None
   \<and> lzh_run (Suc (Suc 0)) [0x01, 0x41, 0x02, 0x00, 0x00] 8
       = Spins \<lparr>outputBuf = [0x41, 0x20, 0x20, 0, 0, 0, 0, 0], outputPos = 3, inputPos = 4,
                 reads = [3, 2, 1, 0], stores = [2, 1, 0]\<rparr>"
  by (simp add: lzh_eval)

section \<open>Scenario A\<close>

lemmas reader_eval = scan_end.simps readHeaderEntry_def readUInt32LE_def readCString_def
  slice_def toString_utf8_def utf16_units_def table_loop.simps build_table_def
  PACKING_METHOD_PRODUCT_def PACKING_METHOD_PACKED_def PACKING_METHOD_UNCOMPRESSED_def

lemmas layout_eval = header_bytes_def boundary_bytes_def bytes_of_def le32_def

lemmas extract_eval = script_name_def endsWith_def toLowerCase_def make_file_def basename_def
  js_def

lemma build_table_scenario_A:
  "build_table scenario_A =
     Inr ([\<lparr>fileName = js ''test.c'', packingMethod = 0, originalSize = 5, reserved = 0,
            timeStamp = 0, dataSize = 5, newOffset = 27\<rparr>], 48)"
  by (simp add: scenario_A_def layout_eval reader_eval js_def)

lemma parse_scenario_A:
  "parse fuel scenario_A this =
     (Done, this\<lparr>files := files this @
        [\<lparr>path = js ''test.c'', name = js ''test.c'', content = js ''hello'',
          lines = [js ''hello''], size_f = 5\<rparr>]\<rparr>)"
  by (simp add: parse_def build_table_scenario_A)
     (simp add: scenario_A_def layout_eval extract_eval slice_def toString_utf8_def
        utf16_units_def PACKING_METHOD_UNCOMPRESSED_def)

text \<open>
  Claim C8.  On the buffer of scenario A a fresh parser returns exactly one record, with
  path \<open>test.c\<close>, content \<open>hello\<close> and size 5 (its name is \<open>test.c\<close> and its only
  line \<open>hello\<close>).
\<close>

theorem scenario_A_one_file:
  "parse fuel scenario_A (new_PBOParser p) =
     (Done, \<lparr>pboPath = p,
             files = [\<lparr>path = js ''test.c'', name = js ''test.c'', content = js ''hello'',
                       lines = [js ''hello''], size_f = 5\<rparr>]\<rparr>)"
  by (simp add: parse_scenario_A new_PBOParser_def)

section \<open>The decompressor stays inside its buffers\<close>

lemma for_loop_stop:
  assumes "\<not> (i < 8 \<and> outputPos st < n \<and> int (inputPos st) < int (length d) - 2)"
  shows "for_loop fuel d n format i st = Returns st"
  by (subst for_loop.simps) (simp only: assms if_False)

lemma for_loop_step:
  assumes "i < 8 \<and> outputPos st < n \<and> int (inputPos st) < int (length d) - 2"
  shows "for_loop fuel d n format i st =
     (case sub_operation fuel d format i st of
        Returns st' \<Rightarrow> for_loop fuel d n format (i + 1) st'
      | Throws e s \<Rightarrow> Throws e s
      | Spins s \<Rightarrow> Spins s)"
  by (subst for_loop.simps) (simp only: assms simp_thms if_True)

lemma while_loop_stop:
  assumes "\<not> (outputPos st < n \<and> inputPos st < length d)"
  shows "while_loop fuel d n st = Returns st"
  by (subst while_loop.simps) (simp only: assms if_False)

lemma while_loop_step:
  assumes "outputPos st < n \<and> inputPos st < length d"
  shows "while_loop fuel d n st =
     (case for_loop fuel d n (byte_at d (inputPos st)) 0
             (st\<lparr>reads := inputPos st # reads st, inputPos := inputPos st + 1\<rparr>) of
        Returns st'' \<Rightarrow> while_loop fuel d n st''
      | Throws e s \<Rightarrow> Throws e s
      | Spins s \<Rightarrow> Spins s)"
  by (subst while_loop.simps) (simp only: assms simp_thms if_True next_byte_def prod.case)

lemma safe_put: "lzh_safe d n st \<Longrightarrow> lzh_safe d n (put v st)"
  by (auto simp: lzh_safe_def put_def)

lemma safe_space_loop: "lzh_safe d n st \<Longrightarrow> lzh_safe d n (space_loop j rlen st)"
  by (induction j rlen st rule: space_loop.induct)
     (subst space_loop.simps, simp add: safe_put)

lemma safe_copy_loop: "lzh_safe d n st \<Longrightarrow> lzh_safe d n (copy_loop j rlen copyPos st)"
  by (induction j rlen copyPos st rule: copy_loop.induct)
     (subst copy_loop.simps, simp add: safe_put)

lemma safe_funpow_put: "lzh_safe d n st \<Longrightarrow> lzh_safe d n ((put v ^^ k) st)"
  by (induction k) (simp_all add: safe_put)

text \<open>
  The guard of the \<open>for\<close> loop leaves room for the two bytes of a pointer, so
  \<open>readUInt16LE\<close> does not throw.
\<close>

lemma safe_back_reference:
  assumes "lzh_safe d n st" and "inputPos st + 1 < length d"
  shows "safe_outcome d n (back_reference fuel d st)"
proof -
  from assms have s1: "lzh_safe d n
      (st\<lparr>reads := (inputPos st + 1) # inputPos st # reads st, inputPos := inputPos st + 2\<rparr>)"
    by (simp add: lzh_safe_def)
  obtain pointer where p: "readUInt16LE d (inputPos st) = Inr pointer"
    using assms(2) by (simp add: readUInt16LE_def)
  show ?thesis
    using s1
    by (cases "int (outputPos st) - (pointer AND 0x00ff) - drop_bit 4 (pointer AND 0xf000) < 0")
       (simp_all add: back_reference_def p Let_def safe_outcome_def safe_space_loop
          safe_copy_loop pad_loop_spins pad_loop_returns safe_funpow_put)
qed

lemma safe_sub_operation:
  assumes "lzh_safe d n st" and "int (inputPos st) < int (length d) - 2"
  shows "safe_outcome d n (sub_operation fuel d format i st)"
proof (cases "drop_bit i (uint format) AND 0x01 \<noteq> 0")
  case True
  from assms
  have "lzh_safe d n (st\<lparr>reads := inputPos st # reads st, inputPos := inputPos st + 1\<rparr>)"
    by (simp add: lzh_safe_def)
  with True show ?thesis
    by (simp add: sub_operation_def next_byte_def safe_outcome_def safe_put)
next
  case False
  from assms(2) have "inputPos st + 1 < length d" by simp
  from safe_back_reference [OF assms(1) this] False show ?thesis
    by (simp add: sub_operation_def)
qed

lemma safe_for_loop:
  "lzh_safe d n st \<Longrightarrow> safe_outcome d n (for_loop fuel d n format i st)"
proof (induction fuel d n format i st rule: for_loop.induct)
  case (1 fuel d n format i st)
  show ?case
  proof (cases "i < 8 \<and> outputPos st < n \<and> int (inputPos st) < int (length d) - 2")
    case False
    with "1.prems" show ?thesis
      by (simp add: for_loop_stop safe_outcome_def)
  next
    case True
    then have g: "int (inputPos st) < int (length d) - 2" by simp
    from safe_sub_operation [OF "1.prems" g, of fuel format i] "1.IH" [OF True]
    show ?thesis
      by (auto simp: for_loop_step [OF True] safe_outcome_def split: outcome.splits)
  qed
qed

lemma safe_while_loop:
  "lzh_safe d n st \<Longrightarrow> safe_outcome d n (while_loop fuel d n st)"
proof (induction fuel d n st rule: while_loop.induct)
  case (1 fuel d n st)
  show ?case
  proof (cases "outputPos st < n \<and> inputPos st < length d")
    case False
    with "1.prems" show ?thesis
      by (simp add: while_loop_stop safe_outcome_def)
  next
    case True
    let ?st' = "st\<lparr>reads := inputPos st # reads st, inputPos := inputPos st + 1\<rparr>"
    have nb: "next_byte d st = (byte_at d (inputPos st), ?st')"
      by (simp add: next_byte_def)
    from "1.prems" True have s': "lzh_safe d n ?st'"
      by (simp add: lzh_safe_def)
    from safe_for_loop [OF s', of fuel "byte_at d (inputPos st)" 0]
      "1.IH" [OF True nb [symmetric]]
    show ?thesis
      by (auto simp: while_loop_step [OF True] safe_outcome_def split: outcome.splits)
  qed
qed

lemma safe_lzh_run: "safe_outcome d n (lzh_run fuel d n)"
  by (simp add: lzh_run_def safe_while_loop lzh_safe_def lzh_init_def)

text \<open>
  Claim C4.  For every compressed input \<open>d\<close> and every \<open>originalSize = n\<close>, in the
  state the run has reached when it returns, and equally after any number of
  iterations of a padding loop it does not leave, the output buffer has exactly
  \<open>n\<close> bytes, every byte stored into it was stored at an index below \<open>n\<close>, and
  every read of the input was at an index below the input's length; in particular
  \<open>readUInt16LE\<close> never throws.  (\<open>outputPos\<close> itself can pass \<open>n\<close>: the stores
  the source then executes are dropped by the typed array.)
\<close>

theorem decompressLZH_in_bounds:
  "length (outputBuf (state_of (lzh_run fuel d n))) = n
   \<and> (\<forall>i \<in> set (stores (state_of (lzh_run fuel d n))). i < n)
   \<and> (\<forall>i \<in> set (reads (state_of (lzh_run fuel d n))). i < length d)
   \<and> (\<forall>e s. lzh_run fuel d n \<noteq> Throws e s)"
  using safe_lzh_run [of d n fuel]
  by (cases "lzh_run fuel d n") (auto simp: safe_outcome_def lzh_safe_def)

theorem decompressLZH_in_bounds_witness:
  "5 \<in> set (stores (state_of (lzh_run 0 [0xFF, 1, 2, 3, 4, 5, 6, 7, 8] 8)))
   \<and> 8 \<in> set (reads (state_of (lzh_run 0 [0xFF, 1, 2, 3, 4, 5, 6, 7, 8] 8)))
   \<and> (5 :: nat) < 8 \<and> (8 :: nat) < length [0xFF, 1, 2, 3, 4, 5, 6, 7, 8 :: byte]
   \<and> length (outputBuf (state_of (lzh_run 0 [0xFF, 1, 2, 3, 4, 5, 6, 7, 8] 8))) = 8"
  using decompressLZH_in_bounds [of 0 "[0xFF, 1, 2, 3, 4, 5, 6, 7, 8]" 8]
  by (simp add: lzh_eval)

section \<open>The parser object keeps its files\<close>

lemma extract_files_prefix:
  "extract_files fuel buf entries offset (fs @ gs) =
     (case extract_files fuel buf entries offset gs of (s, r) \<Rightarrow> (s, fs @ r))"
  by (induction entries arbitrary: offset gs)
     (simp_all add: Let_def split: option.splits sum.splits)

lemma extract_files_append:
  "extract_files fuel buf entries offset fs =
     (case extract_files fuel buf entries offset [] of (s, r) \<Rightarrow> (s, fs @ r))"
  using extract_files_prefix [of fuel buf entries offset fs "[]"] by simp

text \<open>
  Claim C9, as the code has it.  The records a call of \<open>parse\<close> produces depend only on
  the buffer, but the call appends them to \<open>this.files\<close> and returns that array: a call
  on any parser object ends as the call on a fresh object does, with the new records
  after those the object already holds.
\<close>

theorem parse_appends:
  "parse fuel buf this =
     (case parse fuel buf (new_PBOParser (pboPath this)) of
        (s, r) \<Rightarrow> (s, this\<lparr>files := files this @ files r\<rparr>))"
  by (simp add: parse_def new_PBOParser_def extract_files_append [of _ _ _ _ "files this"]
        split: sum.splits prod.splits)

text \<open>
  Claim C9 as stated fails: on scenario A the second call on the same object returns two
  records, the first call one.
\<close>

theorem parse_twice_counterexample:
  "files (snd (parse 0 scenario_A (snd (parse 0 scenario_A (new_PBOParser ''mod.pbo'')))))
     \<noteq> files (snd (parse 0 scenario_A (new_PBOParser ''mod.pbo'')))"
  by (simp add: parse_scenario_A new_PBOParser_def)

section \<open>A packed entry is always extracted\<close>











lemma build_table_scenario_C: "build_table scenario_C = Inr (scenario_C_table, 69)"
  by (simp add: scenario_C_def scenario_C_table_def layout_eval reader_eval js_def)






section \<open>The entry table ends at the first empty name\<close>

lemma table_loop_step:
  "table_loop buf offset acc =
     (case readHeaderEntry buf offset of
        Inl e \<Rightarrow> Inl e
      | Inr h \<Rightarrow>
          if fileName h = [] then Inr (acc, newOffset h)
          else table_loop buf (newOffset h) (acc @ [h]))"
  by (subst table_loop.simps) (rule refl)

lemma table_loop_entries:
  "table_loop buf offset acc = Inr (tbl, offset') \<Longrightarrow>
     \<exists>hs m marker. tbl = acc @ hs \<and> entries_at buf offset hs m
       \<and> (\<forall>h \<in> set hs. fileName h \<noteq> [])
       \<and> readHeaderEntry buf m = Inr marker \<and> fileName marker = []
       \<and> offset' = newOffset marker"
proof (induction buf offset acc rule: table_loop.induct)
  case (1 buf offset acc)
  from "1.prems" obtain h where h: "readHeaderEntry buf offset = Inr h"
    by (subst (asm) table_loop_step) (auto split: sum.splits)
  show ?case
  proof (cases "fileName h = []")
    case True
    with "1.prems" h have "tbl = acc" and "offset' = newOffset h"
      by (subst (asm) table_loop_step, simp)+
    with h True have "tbl = acc @ [] \<and> entries_at buf offset [] offset
       \<and> (\<forall>x \<in> set []. fileName x \<noteq> [])
       \<and> readHeaderEntry buf offset = Inr h \<and> fileName h = []
       \<and> offset' = newOffset h"
      by simp
    then show ?thesis by blast
  next
    case False
    with "1.prems" h have "table_loop buf (newOffset h) (acc @ [h]) = Inr (tbl, offset')"
      by (subst (asm) table_loop_step) simp
    from "1.IH" [OF h False this] obtain hs m marker where
      "tbl = (acc @ [h]) @ hs" "entries_at buf (newOffset h) hs m"
      "\<forall>x \<in> set hs. fileName x \<noteq> []"
      "readHeaderEntry buf m = Inr marker" "fileName marker = []" "offset' = newOffset marker"
      by blast
    with h False have "tbl = acc @ (h # hs) \<and> entries_at buf offset (h # hs) m
       \<and> (\<forall>x \<in> set (h # hs). fileName x \<noteq> [])
       \<and> readHeaderEntry buf m = Inr marker \<and> fileName marker = []
       \<and> offset' = newOffset marker"
      by simp
    then show ?thesis by blast
  qed
qed

lemma build_table_alt:
  "build_table buf =
     (case readHeaderEntry buf 0 of
        Inl e \<Rightarrow> Inl e
      | Inr firstEntry \<Rightarrow>
          table_loop buf (table_start buf firstEntry) (first_entries firstEntry))"
  by (simp add: build_table_def table_start_def first_entries_def split: sum.splits)

text \<open>
  Claim C7.  The loop that builds the entry table starts behind the first header entry
  (and the property block, when the first entry is the product entry).  Whenever it
  returns, from any offset and with any table \<open>acc\<close> built so far, it has added
  exactly the header entries \<open>hs\<close> that lie one after the other from that offset, in
  that order; each of them has a non-empty name; the entry that follows them has the
  empty name and is not in the table; and the offset returned is the one behind that
  marker.  For \<open>build_table\<close> the table is the first entry, when it is a content
  entry, followed by those entries.
\<close>

theorem table_stops_at_marker:
  "(table_loop buf offset acc = Inr (tbl, offset') \<longrightarrow>
      (\<exists>hs m marker. tbl = acc @ hs \<and> entries_at buf offset hs m
         \<and> (\<forall>h \<in> set hs. fileName h \<noteq> [])
         \<and> readHeaderEntry buf m = Inr marker \<and> fileName marker = []
         \<and> offset' = newOffset marker))
   \<and> (build_table buf = Inr (tbl, offset') \<longrightarrow>
      (\<exists>firstEntry hs m marker. readHeaderEntry buf 0 = Inr firstEntry
         \<and> tbl = first_entries firstEntry @ hs
         \<and> entries_at buf (table_start buf firstEntry) hs m
         \<and> (\<forall>h \<in> set hs. fileName h \<noteq> [])
         \<and> readHeaderEntry buf m = Inr marker \<and> fileName marker = []
         \<and> offset' = newOffset marker))"
proof (intro conjI impI)
  assume "table_loop buf offset acc = Inr (tbl, offset')"
  then show "\<exists>hs m marker. tbl = acc @ hs \<and> entries_at buf offset hs m
         \<and> (\<forall>h \<in> set hs. fileName h \<noteq> [])
         \<and> readHeaderEntry buf m = Inr marker \<and> fileName marker = []
         \<and> offset' = newOffset marker"
    by (rule table_loop_entries)
next
  assume b: "build_table buf = Inr (tbl, offset')"
  then obtain firstEntry where f: "readHeaderEntry buf 0 = Inr firstEntry"
    by (auto simp: build_table_alt split: sum.splits)
  with b have "table_loop buf (table_start buf firstEntry) (first_entries firstEntry)
                 = Inr (tbl, offset')"
    by (simp add: build_table_alt)
  from table_loop_entries [OF this] f
  show "\<exists>firstEntry hs m marker. readHeaderEntry buf 0 = Inr firstEntry
         \<and> tbl = first_entries firstEntry @ hs
         \<and> entries_at buf (table_start buf firstEntry) hs m
         \<and> (\<forall>h \<in> set hs. fileName h \<noteq> [])
         \<and> readHeaderEntry buf m = Inr marker \<and> fileName marker = []
         \<and> offset' = newOffset marker"
    by blast
qed

lemma table_loop_scenario_C: "table_loop scenario_C 0 [] = Inr (scenario_C_table, 69)"
  by (simp add: scenario_C_def scenario_C_table_def layout_eval reader_eval js_def)

theorem table_stops_at_marker_witness:
  "table_loop scenario_C 0 [] = Inr (scenario_C_table, 69)
   \<and> (\<exists>hs m marker. scenario_C_table = [] @ hs \<and> entries_at scenario_C 0 hs m
         \<and> readHeaderEntry scenario_C m = Inr marker \<and> fileName marker = []
         \<and> 69 = newOffset marker)
   \<and> build_table scenario_C = Inr (scenario_C_table, 69)
   \<and> (\<exists>firstEntry hs m marker. readHeaderEntry scenario_C 0 = Inr firstEntry
         \<and> scenario_C_table = first_entries firstEntry @ hs
         \<and> entries_at scenario_C (table_start scenario_C firstEntry) hs m
         \<and> readHeaderEntry scenario_C m = Inr marker \<and> fileName marker = []
         \<and> 69 = newOffset marker)"
  using table_stops_at_marker [of scenario_C 0 "[]" scenario_C_table 69]
    table_loop_scenario_C build_table_scenario_C
  by blast

section \<open>The all-literal path\<close>

lemma all_bits_set: "i < 8 \<Longrightarrow> drop_bit i (uint (0xFF :: byte)) AND 0x01 \<noteq> 0"
proof -
  assume "i < 8"
  then have "bit (255 :: int) i"
    using bit_mask_iff [of 8 i, where ?'a = int] by (simp add: mask_eq_exp_minus_1)
  then show ?thesis
    by (simp add: and_one_eq bit_iff_odd_drop_bit odd_iff_mod_2_eq_one)
qed

lemma sub_operation_literal:
  "i < 8 \<Longrightarrow> sub_operation fuel d 0xFF i st =
     Returns (put (byte_at d (inputPos st))
               (st\<lparr>reads := inputPos st # reads st, inputPos := inputPos st + 1\<rparr>))"
  using all_bits_set [of i] by (simp add: sub_operation_def next_byte_def)

lemma for_loop_literals:
  assumes "length (outputBuf st) = n"
    and "i + c \<le> 8" and "outputPos st + c \<le> n" and "inputPos st + c + 2 \<le> length d"
    and "8 \<le> i + c \<or> n \<le> outputPos st + c \<or> length d \<le> inputPos st + c + 2"
  shows "\<exists>st'. for_loop fuel d n 0xFF i st = Returns st'
           \<and> inputPos st' = inputPos st + c \<and> outputPos st' = outputPos st + c
           \<and> outputBuf st' = take (outputPos st) (outputBuf st)
                 @ take c (drop (inputPos st) d) @ drop (outputPos st + c) (outputBuf st)"
  using assms
proof (induction c arbitrary: i st)
  case 0
  from "0.prems"(5)
  have "\<not> (i < 8 \<and> outputPos st < n \<and> int (inputPos st) < int (length d) - 2)"
    by linarith
  then show ?case by (simp add: for_loop_stop)
next
  case (Suc c)
  from Suc.prems(2-4)
  have g: "i < 8 \<and> outputPos st < n \<and> int (inputPos st) < int (length d) - 2"
    by linarith
  let ?st1 = "put (byte_at d (inputPos st))
               (st\<lparr>reads := inputPos st # reads st, inputPos := inputPos st + 1\<rparr>)"
  from g Suc.prems(1) have l1: "length (outputBuf ?st1) = n"
    and i1: "inputPos ?st1 = inputPos st + 1" and o1: "outputPos ?st1 = outputPos st + 1"
    and b1: "outputBuf ?st1 = (outputBuf st)[outputPos st := d ! inputPos st]"
    by (simp_all add: put_def byte_at_def)
  from Suc.prems(2-5)
  have c1: "i + 1 + c \<le> 8" "outputPos ?st1 + c \<le> n" "inputPos ?st1 + c + 2 \<le> length d"
    "8 \<le> i + 1 + c \<or> n \<le> outputPos ?st1 + c \<or> length d \<le> inputPos ?st1 + c + 2"
    unfolding i1 o1 by linarith+
  from Suc.IH [OF l1 c1] obtain st' where
    r: "for_loop fuel d n 0xFF (i + 1) ?st1 = Returns st'"
    and ip: "inputPos st' = inputPos ?st1 + c" and op: "outputPos st' = outputPos ?st1 + c"
    and ob: "outputBuf st' = take (outputPos ?st1) (outputBuf ?st1)
                 @ take c (drop (inputPos ?st1) d) @ drop (outputPos ?st1 + c) (outputBuf ?st1)"
    by blast
  from g r have f: "for_loop fuel d n 0xFF i st = Returns st'"
    by (simp add: for_loop_step [OF g] sub_operation_literal)
  from g Suc.prems(1) have q: "outputPos st < length (outputBuf st)"
    and p: "inputPos st < length d"
    by simp_all
  have t1: "take (outputPos st + 1) ((outputBuf st)[outputPos st := d ! inputPos st])
              = take (outputPos st) (outputBuf st) @ [d ! inputPos st]"
    using q by (simp add: take_Suc_conv_app_nth)
  have t2: "drop (outputPos st + 1 + c) ((outputBuf st)[outputPos st := d ! inputPos st])
              = drop (outputPos st + Suc c) (outputBuf st)"
    by simp
  have t3: "take (Suc c) (drop (inputPos st) d)
              = d ! inputPos st # take c (drop (inputPos st + 1) d)"
    using p by (simp add: Cons_nth_drop_Suc [symmetric])
  have "outputBuf st' = take (outputPos st) (outputBuf st)
                 @ take (Suc c) (drop (inputPos st) d) @ drop (outputPos st + Suc c) (outputBuf st)"
    unfolding ob i1 o1 b1 t1 t2 t3 by simp
  with f ip op i1 o1 show ?case by simp
qed


lemma literal_stream_Cons: "literal_stream (g # gs) = 0xFF # g @ literal_stream gs"
  by (simp add: literal_stream_def)

lemma while_loop_tail:
  "length d \<le> inputPos st + 2 \<Longrightarrow>
     \<exists>st'. while_loop fuel d n st = Returns st' \<and> outputBuf st' = outputBuf st"
proof (induction fuel d n st rule: while_loop.induct)
  case (1 fuel d n st)
  show ?case
  proof (cases "outputPos st < n \<and> inputPos st < length d")
    case False
    then show ?thesis by (simp add: while_loop_stop)
  next
    case True
    let ?st1 = "st\<lparr>reads := inputPos st # reads st, inputPos := inputPos st + 1\<rparr>"
    have nb: "next_byte d st = (byte_at d (inputPos st), ?st1)"
      by (simp add: next_byte_def)
    from "1.prems"
    have "\<not> (0 < (8 :: nat) \<and> outputPos ?st1 < n
             \<and> int (inputPos ?st1) < int (length d) - 2)"
      by simp
    then have f: "for_loop fuel d n (byte_at d (inputPos st)) 0 ?st1 = Returns ?st1"
      by (rule for_loop_stop)
    from "1.prems" have "length d \<le> inputPos ?st1 + 2" by simp
    from "1.IH" [OF True nb [symmetric] f this] f
    show ?thesis by (simp add: while_loop_step [OF True])
  qed
qed

lemma while_loop_literals:
  assumes "\<forall>g \<in> set gs. length g = 8"
    and "d = pre @ literal_stream gs @ tr"
    and "inputPos st = length pre"
    and "length (outputBuf st) = n"
    and "n = outputPos st + 8 * length gs"
    and "m = 8 * length gs - (2 - length tr)"
  shows "\<exists>st'. while_loop fuel d n st = Returns st'
           \<and> outputBuf st' = take (outputPos st) (outputBuf st) @ take m (concat gs)
                 @ drop (outputPos st + m) (outputBuf st)"
  using assms
proof (induction gs arbitrary: pre st m)
  case Nil
  then show ?case by (simp add: while_loop_stop)
next
  case (Cons g gs)
  note P = Cons.prems and IH = Cons.IH
  let ?q = "outputPos st" and ?out = "outputBuf st"
  let ?rest = "literal_stream gs @ tr"
  from P(1) have lg: "length g = 8" and lgs: "\<forall>g \<in> set gs. length g = 8"
    by simp_all
  from P(2) have d: "d = pre @ 0xFF # g @ ?rest"
    by (simp add: literal_stream_Cons)
  have ld: "length d = length pre + 9 + length ?rest"
    using lg by (simp add: d)
  from P(3-5) ld have w: "outputPos st < n \<and> inputPos st < length d"
    by simp
  have fmt: "byte_at d (inputPos st) = 0xFF"
    using P(3) by (simp add: byte_at_def d nth_append)
  let ?st1 = "st\<lparr>reads := inputPos st # reads st, inputPos := inputPos st + 1\<rparr>"
  have dr: "drop (inputPos ?st1) d = g @ ?rest"
    using P(3) by (simp add: d)
  have step: "while_loop fuel d n st =
     (case for_loop fuel d n 0xFF 0 ?st1 of
        Returns st'' \<Rightarrow> while_loop fuel d n st''
      | Throws e s \<Rightarrow> Throws e s
      | Spins s \<Rightarrow> Spins s)"
    by (simp add: while_loop_step [OF w] fmt)
  show ?case
  proof (cases "2 \<le> length ?rest")
    case True
    have c: "length (outputBuf ?st1) = n" "0 + 8 \<le> (8 :: nat)" "outputPos ?st1 + 8 \<le> n"
      "inputPos ?st1 + 8 + 2 \<le> length d"
      "8 \<le> 0 + (8 :: nat) \<or> n \<le> outputPos ?st1 + 8 \<or> length d \<le> inputPos ?st1 + 8 + 2"
      using P(3-5) True ld by simp_all
    from for_loop_literals [OF c, of fuel] obtain st2 where
      f: "for_loop fuel d n 0xFF 0 ?st1 = Returns st2"
      and i2': "inputPos st2 = inputPos ?st1 + 8"
      and o2': "outputPos st2 = outputPos ?st1 + 8"
      and b2': "outputBuf st2 = take (outputPos ?st1) (outputBuf ?st1)
                 @ take 8 (drop (inputPos ?st1) d) @ drop (outputPos ?st1 + 8) (outputBuf ?st1)"
      by blast
    have tk: "take 8 (drop (inputPos ?st1) d) = g"
      using lg by (simp only: dr) simp
    from i2' P(3) lg have i2: "inputPos st2 = length (pre @ 0xFF # g)"
      by simp
    from o2' have o2: "outputPos st2 = ?q + 8"
      by simp
    from b2' [unfolded tk] have b2: "outputBuf st2 = take ?q ?out @ g @ drop (?q + 8) ?out"
      by simp
    have d2: "d = (pre @ 0xFF # g) @ literal_stream gs @ tr"
      by (simp add: d)
    have l2: "length (outputBuf st2) = n"
      using P(4,5) lg by (simp add: b2)
    have n2: "n = outputPos st2 + 8 * length gs"
      using P(5) by (simp add: o2)
    define m' where "m' = 8 * length gs - (2 - length tr)"
    from IH [OF lgs d2 i2 l2 n2 m'_def] obtain st' where
      r: "while_loop fuel d n st2 = Returns st'"
      and b': "outputBuf st' = take (outputPos st2) (outputBuf st2) @ take m' (concat gs)
                 @ drop (outputPos st2 + m') (outputBuf st2)"
      by blast
    have mm: "m = 8 + m'"
    proof (cases gs)
      case Nil
      with True P(6) show ?thesis
        by (simp add: m'_def literal_stream_def)
    next
      case (Cons a list)
      with P(6) show ?thesis by (simp add: m'_def)
    qed
    have q: "?q + 8 \<le> length ?out"
      using P(4,5) by simp
    have t1: "take (?q + 8) (take ?q ?out @ g @ drop (?q + 8) ?out) = take ?q ?out @ g"
      using q lg by simp
    have t2: "drop (?q + 8 + m') (take ?q ?out @ g @ drop (?q + 8) ?out)
                = drop (?q + (8 + m')) ?out"
      using q lg by (simp add: add.commute add.left_commute)
    have "outputBuf st' = take ?q ?out @ take m (concat (g # gs)) @ drop (?q + m) ?out"
      unfolding b' o2 b2 t1 t2 mm using lg by simp
    with step f r show ?thesis by simp
  next
    case False
    have gs: "gs = []"
    proof (cases gs)
      case (Cons a list)
      with False lgs show ?thesis by (simp add: literal_stream_Cons)
    qed simp
    with False have t: "length tr < 2" by (simp add: literal_stream_def)
    let ?c = "6 + length tr"
    have c: "length (outputBuf ?st1) = n" "0 + ?c \<le> (8 :: nat)" "outputPos ?st1 + ?c \<le> n"
      "inputPos ?st1 + ?c + 2 \<le> length d"
      "8 \<le> 0 + ?c \<or> n \<le> outputPos ?st1 + ?c \<or> length d \<le> inputPos ?st1 + ?c + 2"
      using P(3-5) t ld gs by (simp_all add: literal_stream_def)
    from for_loop_literals [OF c, of fuel] obtain st2 where
      f: "for_loop fuel d n 0xFF 0 ?st1 = Returns st2"
      and i2': "inputPos st2 = inputPos ?st1 + ?c"
      and b2': "outputBuf st2 = take (outputPos ?st1) (outputBuf ?st1)
                 @ take ?c (drop (inputPos ?st1) d) @ drop (outputPos ?st1 + ?c) (outputBuf ?st1)"
      by blast
    have tk: "take ?c (drop (inputPos ?st1) d) = take ?c g"
      using lg t by (simp only: dr) simp
    from i2' P(3) have i2: "inputPos st2 = length pre + 1 + ?c"
      by simp
    from b2' [unfolded tk] have b2: "outputBuf st2 = take ?q ?out @ take ?c g @ drop (?q + ?c) ?out"
      by simp
    have "length d \<le> inputPos st2 + 2"
      using ld gs by (simp add: i2 literal_stream_def)
    from while_loop_tail [OF this] obtain st' where
      r: "while_loop fuel d n st2 = Returns st'" and b': "outputBuf st' = outputBuf st2"
      by blast
    have "m = ?c" using P(6) gs t by simp
    with b' b2 gs have "outputBuf st' = take ?q ?out @ take m (concat (g # gs))
                 @ drop (?q + m) ?out"
      by simp
    with step f r show ?thesis by simp
  qed
qed

text \<open>
  Claim C2, as the code has it.  The input is groups of a control byte \<open>0xFF\<close> and
  eight literal bytes, followed by any bytes \<open>tr\<close>, and \<open>originalSize\<close> is the
  number of literal bytes.  The sub-operation loop runs only while
  \<open>inputPos < compressedData.length - 2\<close>.  So the call returns the decoding of the
  literal bytes, all of them and in order, when at least two bytes follow the last
  literal; when one byte or none follows, the last one or two literal bytes are not
  copied and the output has zero bytes in their place.
\<close>

theorem literal_path:
  assumes "\<forall>g \<in> set gs. length g = 8"
  shows "decompressLZH fuel (literal_stream gs @ tr) (8 * length gs) =
           Some (Inr (toString_utf8
             (take (8 * length gs - (2 - length tr)) (concat gs)
              @ replicate (min (2 - length tr) (8 * length gs)) 0)))"
proof -
  let ?n = "8 * length gs" and ?m = "8 * length gs - (2 - length tr)"
  have "\<exists>st'. while_loop fuel (literal_stream gs @ tr) ?n (lzh_init ?n) = Returns st'
           \<and> outputBuf st' = take (outputPos (lzh_init ?n)) (outputBuf (lzh_init ?n))
                 @ take ?m (concat gs) @ drop (outputPos (lzh_init ?n) + ?m) (outputBuf (lzh_init ?n))"
    using assms by (intro while_loop_literals [where pre = "[]"]) (simp_all add: lzh_init_def)
  then obtain st' where r: "lzh_run fuel (literal_stream gs @ tr) ?n = Returns st'"
    and b: "outputBuf st' = take ?m (concat gs) @ replicate (?n - ?m) 0"
    by (auto simp: lzh_run_def lzh_init_def)
  have "?n - ?m = min (2 - length tr) ?n" by simp
  with r b show ?thesis by (simp add: decompressLZH_def)
qed

theorem literal_path_witness:
  "length [0x68, 0x65, 0x6C, 0x6C, 0x6F, 0x21, 0x21, 0x0A :: byte] = 8
   \<and> decompressLZH 0 ([0xFF, 0x68, 0x65, 0x6C, 0x6C, 0x6F, 0x21, 0x21, 0x0A] @ [0, 0]) 8
       = Some (Inr (js ''hello!!'' @ [0x0A]))
   \<and> decompressLZH 0 ([0xFF, 0x68, 0x65, 0x6C, 0x6C, 0x6F, 0x21, 0x21, 0x0A] @ []) 8
       = Some (Inr (js ''hello!'' @ [0, 0]))"
  using literal_path [of "[[0x68, 0x65, 0x6C, 0x6C, 0x6F, 0x21, 0x21, 0x0A]]" 0 "[0, 0]"]
    literal_path [of "[[0x68, 0x65, 0x6C, 0x6C, 0x6F, 0x21, 0x21, 0x0A]]" 0 "[]"]
  by (simp add: literal_stream_def toString_utf8_def utf16_units_def js_def replicate_numeral)

text \<open>
  Claim C2 as stated fails for one group with nothing behind it: the last two literal
  bytes are not copied.
\<close>

theorem literal_path_counterexample:
  "decompressLZH 0 [0xFF, 0x68, 0x65, 0x6C, 0x6C, 0x6F, 0x21, 0x21, 0x0A] 8
     = Some (Inr (js ''hello!'' @ [0, 0]))
   \<and> toString_utf8 [0x68, 0x65, 0x6C, 0x6C, 0x6F, 0x21, 0x21, 0x0A] = js ''hello!!'' @ [0x0A]"
  by (simp add: lzh_eval toString_utf8_def utf16_units_def js_def)

section \<open>A truncated archive\<close>

lemma utf8_dec_eq_Nil:
  "utf8_dec cp needed lower upper bs = [] \<Longrightarrow> bs = [] \<and> needed = 0"
proof (induction bs arbitrary: cp needed lower upper)
  case Nil
  then show ?case by (simp split: if_splits)
next
  case (Cons b bs)
  from Cons.prems show ?case
    by (auto split: if_splits dest!: Cons.IH)
qed

lemma toString_utf8_eq_Nil: "toString_utf8 bs = [] \<longleftrightarrow> bs = []"
proof
  assume "toString_utf8 bs = []"
  then have "\<forall>cp \<in> set (utf8_dec 0 0 0x80 0xBF (map unat bs)). utf16_units cp = []"
    by (simp add: toString_utf8_def)
  moreover have "utf16_units cp \<noteq> []" for cp
    by (simp add: utf16_units_def)
  ultimately have "utf8_dec 0 0 0x80 0xBF (map unat bs) = []"
    by (cases "utf8_dec 0 0 0x80 0xBF (map unat bs)") auto
  from utf8_dec_eq_Nil [OF this] show "bs = []" by simp
qed simp

lemma readUInt32LE_in_range:
  "offset + 4 \<le> length buf \<Longrightarrow> \<exists>v. readUInt32LE buf offset = Inr v"
  by (simp add: readUInt32LE_def)

lemma readHeaderEntry_in_range:
  assumes "offset + length (takeWhile (\<lambda>b. b \<noteq> 0) (drop offset buf)) + 21 \<le> length buf"
  shows "\<exists>h. readHeaderEntry buf offset = Inr h
           \<and> fileName h = toString_utf8 (takeWhile (\<lambda>b. b \<noteq> 0) (drop offset buf))
           \<and> readUInt32LE buf (offset + length (takeWhile (\<lambda>b. b \<noteq> 0) (drop offset buf)) + 1)
               = Inr (packingMethod h)
           \<and> newOffset h = offset + length (takeWhile (\<lambda>b. b \<noteq> 0) (drop offset buf)) + 21"
proof -
  let ?o = "offset + length (takeWhile (\<lambda>b. b \<noteq> 0) (drop offset buf)) + 1"
  from assms obtain pm os rs ts ds where
    "readUInt32LE buf ?o = Inr pm" "readUInt32LE buf (?o + 4) = Inr os"
    "readUInt32LE buf (?o + 8) = Inr rs" "readUInt32LE buf (?o + 12) = Inr ts"
    "readUInt32LE buf (?o + 16) = Inr ds"
    using readUInt32LE_in_range [of ?o buf] readUInt32LE_in_range [of "?o + 4" buf]
      readUInt32LE_in_range [of "?o + 8" buf] readUInt32LE_in_range [of "?o + 12" buf]
      readUInt32LE_in_range [of "?o + 16" buf]
    by auto
  then show ?thesis
    by (simp add: readHeaderEntry_def readCString_takeWhile)
qed

lemma readHeaderEntry_out_of_range:
  assumes "length buf < offset + length (takeWhile (\<lambda>b. b \<noteq> 0) (drop offset buf)) + 21"
  shows "\<exists>e. readHeaderEntry buf offset = Inl e"
proof (cases "readHeaderEntry buf offset")
  case (Inl e)
  then show ?thesis by blast
next
  case (Inr h)
  then have "newOffset h = offset + length (takeWhile (\<lambda>b. b \<noteq> 0) (drop offset buf)) + 21"
    by (auto simp: readHeaderEntry_def readCString_takeWhile split: sum.splits)
  with readHeaderEntry_offset(2) [OF Inr] assms show ?thesis by simp
qed

lemma takeWhile_take_name:
  assumes "0 \<notin> set fname"
  shows "takeWhile (\<lambda>b. b \<noteq> 0) (take j (fname @ 0 # rest)) = take j fname"
proof (cases "j \<le> length fname")
  case True
  have "\<forall>b \<in> set (take j fname). b \<noteq> 0"
    using assms by (auto dest: in_set_takeD)
  then have "takeWhile (\<lambda>b. b \<noteq> 0) (take j fname) = take j fname"
    by (simp add: takeWhile_eq_all_conv)
  with True show ?thesis by simp
next
  case False
  then obtain i where j: "j = length fname + Suc i"
    by (metis add_Suc_right less_imp_Suc_add not_le)
  have "\<forall>b \<in> set fname. b \<noteq> 0" using assms by auto
  then show ?thesis by (simp add: j takeWhile_append2)
qed

text \<open>A header entry whose bytes lie at \<open>pre\<close>, in a buffer cut after \<open>k\<close> bytes.\<close>

lemma readHeaderEntry_cut:
  assumes "0 \<notin> set fname" and "length fld = 20"
    and "buf = take k (pre @ fname @ 0 # fld @ rest)" and "length pre \<le> k"
    and "k \<le> length (pre @ fname @ 0 # fld @ rest)"
  shows "k < length pre + length fname + 21 \<Longrightarrow> \<exists>e. readHeaderEntry buf (length pre) = Inl e"
    and "length pre + length fname + 21 \<le> k \<Longrightarrow>
           \<exists>h. readHeaderEntry buf (length pre) = Inr h \<and> fileName h = toString_utf8 fname
             \<and> readUInt32LE buf (length pre + length fname + 1) = Inr (packingMethod h)
             \<and> newOffset h = length pre + length fname + 21"
proof -
  have lb: "length buf = k" using assms(3,5) by simp
  have dr: "drop (length pre) buf = take (k - length pre) (fname @ 0 # fld @ rest)"
    using assms(3,4) by (simp add: drop_take)
  have tw: "takeWhile (\<lambda>b. b \<noteq> 0) (drop (length pre) buf) = take (k - length pre) fname"
    unfolding dr by (rule takeWhile_take_name [OF assms(1)])
  {
    assume "k < length pre + length fname + 21"
    with assms(4) have "length buf < length pre
        + length (takeWhile (\<lambda>b. b \<noteq> 0) (drop (length pre) buf)) + 21"
      unfolding tw lb by (simp add: min_def)
    then show "\<exists>e. readHeaderEntry buf (length pre) = Inl e"
      by (rule readHeaderEntry_out_of_range)
  }
  {
    assume a: "length pre + length fname + 21 \<le> k"
    then have tw': "takeWhile (\<lambda>b. b \<noteq> 0) (drop (length pre) buf) = fname"
      unfolding tw by simp
    from a have "length pre + length (takeWhile (\<lambda>b. b \<noteq> 0) (drop (length pre) buf)) + 21
                   \<le> length buf"
      unfolding tw' lb by simp
    from readHeaderEntry_in_range [OF this]
    show "\<exists>h. readHeaderEntry buf (length pre) = Inr h \<and> fileName h = toString_utf8 fname
             \<and> readUInt32LE buf (length pre + length fname + 1) = Inr (packingMethod h)
             \<and> newOffset h = length pre + length fname + 21"
      unfolding tw' by simp
  }
qed


lemma header_bytes_shape:
  "\<exists>fld. length fld = 20 \<and> header_bytes fname pm os rs ts ds = fname @ 0 # fld"
  by (simp add: header_bytes_def le32_def)

lemma entry_bytes_shape:
  "\<exists>fld. length fld = 20 \<and> entry_bytes e = fst e @ 0 # fld"
  using header_bytes_shape by (cases e) (simp add: entry_bytes_def)

lemma boundary_bytes_shape: "\<exists>fld. length fld = 20 \<and> boundary_bytes = [] @ 0 # fld"
  using header_bytes_shape [of "[]" 0 0 0 0 0] by (simp add: boundary_bytes_def)

lemma table_loop_cut:
  assumes "\<forall>e \<in> set es. well_named (fst e)"
    and "buf = take k (pre @ table_bytes es)"
    and "length pre \<le> k" and "k < length pre + length (table_bytes es)"
  shows "\<exists>err. table_loop buf (length pre) acc = Inl err"
  using assms
proof (induction es arbitrary: pre acc)
  case Nil
  obtain fld where f: "length fld = 20" "boundary_bytes = [] @ 0 # fld"
    using boundary_bytes_shape by blast
  from Nil.prems(2) have b: "buf = take k (pre @ [] @ 0 # fld @ [])"
    by (simp add: table_bytes_def f(2))
  have lb: "length boundary_bytes = 21"
    by (simp add: boundary_bytes_def header_bytes_def le32_def)
  from Nil.prems(4) have "k < length pre + length ([] :: buffer) + 21"
    by (simp add: table_bytes_def lb)
  moreover from Nil.prems(4) f(1) have "k \<le> length (pre @ [] @ 0 # fld @ [])"
    by (simp add: table_bytes_def lb)
  ultimately obtain e where "readHeaderEntry buf (length pre) = Inl e"
    using readHeaderEntry_cut(1) [OF _ f(1) b Nil.prems(3)] by auto
  then show ?case by (simp add: table_loop_step)
next
  case (Cons e es)
  note P = Cons.prems and IH = Cons.IH
  obtain fld where f: "length fld = 20" "entry_bytes e = fst e @ 0 # fld"
    using entry_bytes_shape by blast
  from P(1) have wn: "fst e \<noteq> []" "0 \<notin> set (fst e)"
    and wns: "\<forall>e \<in> set es. well_named (fst e)"
    by (simp_all add: well_named_def)
  have tb: "table_bytes (e # es) = fst e @ 0 # fld @ table_bytes es"
    by (simp add: table_bytes_def f(2))
  from P(2) have b: "buf = take k (pre @ fst e @ 0 # fld @ table_bytes es)"
    by (simp add: tb)
  from P(4) have kl: "k \<le> length (pre @ fst e @ 0 # fld @ table_bytes es)"
    by (simp add: tb)
  show ?case
  proof (cases "k < length pre + length (fst e) + 21")
    case True
    from readHeaderEntry_cut(1) [OF wn(2) f(1) b P(3) kl True]
    show ?thesis by (auto simp: table_loop_step)
  next
    case False
    then have "length pre + length (fst e) + 21 \<le> k" by simp
    from readHeaderEntry_cut(2) [OF wn(2) f(1) b P(3) kl this] obtain h where
      h: "readHeaderEntry buf (length pre) = Inr h" "fileName h = toString_utf8 (fst e)"
      "newOffset h = length pre + length (fst e) + 21"
      by blast
    from h(2) wn(1) have ne: "fileName h \<noteq> []"
      by (simp add: toString_utf8_eq_Nil)
    have no: "newOffset h = length (pre @ entry_bytes e)"
      by (simp add: h(3) f)
    have b': "buf = take k ((pre @ entry_bytes e) @ table_bytes es)"
      by (simp add: b f(2))
    from False f have k1: "length (pre @ entry_bytes e) \<le> k" by simp
    from P(4) f have k2: "k < length (pre @ entry_bytes e) + length (table_bytes es)"
      by (simp add: tb)
    from IH [OF wns b' k1 k2, of "acc @ [h]"] h(1) ne no
    show ?thesis by (simp add: table_loop_step)
  qed
qed

lemma table_loop_beyond:
  assumes "length buf \<le> offset"
  shows "\<exists>err. table_loop buf offset acc = Inl err"
proof -
  from assms have "length buf < offset + length (takeWhile (\<lambda>b. b \<noteq> 0) (drop offset buf)) + 21"
    by simp
  from readHeaderEntry_out_of_range [OF this] show ?thesis
    by (auto simp: table_loop_step)
qed


lemma le32_value:
  assumes "(v :: nat) < 2 ^ 32"
  shows "v mod 256 + v div 256 mod 256 * 256 + v div 65536 mod 256 * 65536
           + v div 16777216 * 16777216 = v"
proof -
  have a: "v mod 65536 = 256 * (v div 256 mod 256) + v mod 256"
    using mod_mult2_eq [of v 256 256] by simp
  have b: "v mod 16777216 = 65536 * (v div 65536 mod 256) + v mod 65536"
    using mod_mult2_eq [of v 65536 256] by simp
  have c: "v = 16777216 * (v div 16777216) + v mod 16777216"
    by simp
  from a b c show ?thesis by simp
qed

lemma readUInt32LE_le32:
  assumes "v < 2 ^ 32"
  shows "readUInt32LE (pre @ le32 v @ rest) (length pre) = Inr v"
proof -
  from assms have "v div 16777216 < 256" by simp
  then have "v div 16777216 mod 256 = v div 16777216" by simp
  with le32_value [OF assms] show ?thesis
    by (simp add: readUInt32LE_def le32_def nth_append unat_of_nat)
qed

lemma property_loop_step:
  "property_loop buf offset =
     (case readProperty buf offset of
        (nm, v, offset') \<Rightarrow> if nm = None then offset' else property_loop buf offset')"
  by (subst property_loop.simps) (rule refl)

lemma property_loop_beyond: "length buf \<le> offset \<Longrightarrow> property_loop buf offset = offset + 1"
  by (simp add: property_loop_step readProperty_def readCString_takeWhile)

lemma readCString_cut:
  assumes "0 \<notin> set s" and "buf = take k (pre @ s @ 0 # rest)" and "length pre \<le> k"
  shows "readCString buf (length pre) =
           (toString_utf8 (take (k - length pre) s),
            length pre + min (k - length pre) (length s) + 1)"
proof -
  have "drop (length pre) buf = take (k - length pre) (s @ 0 # rest)"
    using assms(2,3) by (simp add: drop_take)
  then have "takeWhile (\<lambda>b. b \<noteq> 0) (drop (length pre) buf) = take (k - length pre) s"
    by (simp only: takeWhile_take_name [OF assms(1)])
  then show ?thesis
    by (simp add: readCString_takeWhile min.commute)
qed


lemma property_loop_cut:
  assumes "\<forall>p \<in> set ps. well_named (fst p) \<and> 0 \<notin> set (snd p)"
    and "buf = take k (pre @ property_bytes ps @ rest)"
    and "length pre \<le> k" and "k \<le> length (pre @ property_bytes ps @ rest)"
  shows "(length pre + length (property_bytes ps) \<le> k \<longrightarrow>
            property_loop buf (length pre) = length pre + length (property_bytes ps))
         \<and> (k < length pre + length (property_bytes ps) \<longrightarrow>
            k < property_loop buf (length pre))"
  using assms
proof (induction ps arbitrary: pre)
  case Nil
  from Nil.prems(2) have "buf = take k (pre @ [] @ 0 # rest)"
    by (simp add: property_bytes_def)
  from readCString_cut [OF _ this Nil.prems(3)]
  have "property_loop buf (length pre) = length pre + 1"
    by (simp add: property_loop_step readProperty_def)
  then show ?case by (simp add: property_bytes_def)
next
  case (Cons p ps)
  note P = Cons.prems and IH = Cons.IH
  obtain key v where p: "p = (key, v)" by (cases p)
  from P(1) p have key: "key \<noteq> []" "0 \<notin> set key" and v: "0 \<notin> set v"
    and rest: "\<forall>p \<in> set ps. well_named (fst p) \<and> 0 \<notin> set (snd p)"
    by (simp_all add: well_named_def)
  have pb: "property_bytes (p # ps) = key @ 0 # v @ 0 # property_bytes ps"
    by (simp add: property_bytes_def p)
  have lb: "length buf = k" using P(2,4) by simp
  let ?j = "k - length pre"
  from P(2) have b1: "buf = take k (pre @ key @ 0 # (v @ 0 # property_bytes ps @ rest))"
    by (simp add: pb)
  note c1 = readCString_cut [OF key(2) b1 P(3)]
  show ?case
  proof (cases "?j = 0")
    case True
    with c1 have "property_loop buf (length pre) = length pre + 1"
      by (simp add: property_loop_step readProperty_def)
    with True P(3) show ?thesis by (simp add: pb)
  next
    case False
    with key(1) have n1: "toString_utf8 (take ?j key) \<noteq> []"
      by (simp add: toString_utf8_eq_Nil)
    show ?thesis
    proof (cases "?j \<le> length key")
      case True
      with False P(3) have o1: "length pre + min ?j (length key) + 1 = k + 1"
        by simp
      have "readCString buf (k + 1) = ([], k + 2)"
        using lb by (simp add: readCString_takeWhile)
      with c1 n1 o1 have "readProperty buf (length pre)
          = (Some (toString_utf8 (take ?j key)), Some [], k + 2)"
        by (simp add: readProperty_def)
      then have "property_loop buf (length pre) = property_loop buf (k + 2)"
        by (simp add: property_loop_step)
      also have "\<dots> = k + 3"
        using lb by (simp add: property_loop_beyond)
      finally show ?thesis using True P(3) by (simp add: pb)
    next
      case k1: False
      let ?pre1 = "pre @ key @ [0]"
      from k1 have o1: "length pre + min ?j (length key) + 1 = length ?pre1"
        by simp
      from k1 have t1: "take ?j key = key" by simp
      have b2: "buf = take k (?pre1 @ v @ 0 # (property_bytes ps @ rest))"
        by (simp add: b1)
      from k1 have l2: "length ?pre1 \<le> k" by simp
      note c2 = readCString_cut [OF v b2 l2]
      let ?j' = "k - length ?pre1"
      let ?o2 = "length ?pre1 + min ?j' (length v) + 1"
      from c1 c2 n1 have rp: "readProperty buf (length pre)
          = (Some (toString_utf8 key), Some (toString_utf8 (take ?j' v)), ?o2)"
        unfolding o1 t1 by (simp add: readProperty_def)
      then have pl: "property_loop buf (length pre) = property_loop buf ?o2"
        by (simp add: property_loop_step)
      show ?thesis
      proof (cases "?j' \<le> length v")
        case True
        with l2 have "?o2 = k + 1" by simp
        with pl lb have "property_loop buf (length pre) = k + 2"
          by (simp add: property_loop_beyond)
        with True l2 show ?thesis by (simp add: pb)
      next
        case k2: False
        let ?pre2 = "pre @ key @ 0 # v @ [0]"
        from k2 have o2: "?o2 = length ?pre2" by simp
        have b3: "buf = take k (?pre2 @ property_bytes ps @ rest)"
          by (simp add: b1)
        from k2 have l3: "length ?pre2 \<le> k" by simp
        from P(4) have l4: "k \<le> length (?pre2 @ property_bytes ps @ rest)"
          by (simp add: pb)
        from IH [OF rest b3 l3 l4] pl show ?thesis
          unfolding o2 by (simp add: pb)
      qed
    qed
  qed
qed


lemma length_header_bytes [simp]:
  "length (header_bytes fname pm os rs ts ds) = length fname + 21"
  by (simp add: header_bytes_def le32_def)

lemma take_append_ge: "length xs \<le> k \<Longrightarrow> take k (xs @ ys) = xs @ take (k - length xs) ys"
  by simp

lemma first_entry_cut:
  assumes "0 \<notin> set fname" and "pm < 2 ^ 32"
    and "buf = take k (header_bytes fname pm os rs ts ds @ rest)"
    and "k \<le> length (header_bytes fname pm os rs ts ds @ rest)"
  shows "k < length fname + 21 \<Longrightarrow> \<exists>e. readHeaderEntry buf 0 = Inl e"
    and "length fname + 21 \<le> k \<Longrightarrow>
           \<exists>h. readHeaderEntry buf 0 = Inr h \<and> fileName h = toString_utf8 fname
             \<and> packingMethod h = pm \<and> newOffset h = length fname + 21"
proof -
  let ?fld = "le32 pm @ le32 os @ le32 rs @ le32 ts @ le32 ds"
  have f: "length ?fld = 20" by (simp add: le32_def)
  have b: "buf = take k ([] @ fname @ 0 # ?fld @ rest)"
    using assms(3) by (simp add: header_bytes_def)
  have kl: "k \<le> length ([] @ fname @ 0 # ?fld @ rest)"
    using assms(4) by (simp add: header_bytes_def)
  {
    assume "k < length fname + 21"
    with readHeaderEntry_cut(1) [OF assms(1) f b _ kl]
    show "\<exists>e. readHeaderEntry buf 0 = Inl e" by simp
  }
  {
    assume a: "length fname + 21 \<le> k"
    with readHeaderEntry_cut(2) [OF assms(1) f b _ kl] obtain h where
      h: "readHeaderEntry buf 0 = Inr h" "fileName h = toString_utf8 fname"
      "readUInt32LE buf (length fname + 1) = Inr (packingMethod h)"
      "newOffset h = length fname + 21"
      by auto
    have l4: "length (le32 x) = 4" for x by (simp add: le32_def)
    let ?Y = "le32 os @ le32 rs @ le32 ts @ le32 ds @ rest"
    let ?T = "take (k - length ((fname @ [0]) @ le32 pm)) ?Y"
    have "buf = take k (((fname @ [0]) @ le32 pm) @ ?Y)"
      by (simp add: assms(3) header_bytes_def)
    also from a have "\<dots> = ((fname @ [0]) @ le32 pm) @ ?T"
      by (intro take_append_ge) (simp add: l4)
    finally have eq: "buf = (fname @ [0]) @ le32 pm @ ?T"
      by (simp only: append_assoc)
    have "readUInt32LE ((fname @ [0]) @ le32 pm @ ?T) (length (fname @ [0])) = Inr pm"
      by (rule readUInt32LE_le32 [OF assms(2)])
    then have "readUInt32LE buf (length fname + 1) = Inr pm"
      unfolding eq [symmetric] by simp
    with h(3) have "packingMethod h = pm" by simp
    with h show "\<exists>h. readHeaderEntry buf 0 = Inr h \<and> fileName h = toString_utf8 fname
             \<and> packingMethod h = pm \<and> newOffset h = length fname + 21"
      by blast
  }
qed

lemma plain_cut:
  assumes "\<forall>e \<in> set es. well_named (fst e)"
    and "es = [] \<or> fst (snd (hd es)) \<noteq> PACKING_METHOD_PRODUCT \<and> fst (snd (hd es)) < 2 ^ 32"
    and "k < length (table_bytes es)"
  shows "\<exists>e. build_table (take k (table_bytes es)) = Inl e"
proof (cases es)
  case Nil
  have "take k (table_bytes es) = take k (header_bytes [] 0 0 0 0 0 @ [])"
    by (simp add: Nil table_bytes_def boundary_bytes_def)
  from first_entry_cut(1) [OF _ _ this] assms(3) show ?thesis
    by (auto simp: Nil table_bytes_def boundary_bytes_def build_table_alt)
next
  case (Cons e es')
  obtain fname pm os rs ts ds where e: "e = (fname, pm, os, rs, ts, ds)"
    by (cases e)
  from assms(1,2) Cons e have wn: "fname \<noteq> []" "0 \<notin> set fname"
    and pm: "pm \<noteq> PACKING_METHOD_PRODUCT" "pm < 2 ^ 32"
    and wns: "\<forall>e \<in> set es'. well_named (fst e)"
    by (simp_all add: well_named_def)
  let ?buf = "take k (table_bytes es)"
  have tb: "table_bytes es = header_bytes fname pm os rs ts ds @ table_bytes es'"
    by (simp add: Cons e table_bytes_def entry_bytes_def)
  have b: "?buf = take k (header_bytes fname pm os rs ts ds @ table_bytes es')"
    by (simp add: tb)
  from assms(3) have kl: "k \<le> length (header_bytes fname pm os rs ts ds @ table_bytes es')"
    by (simp add: tb)
  show ?thesis
  proof (cases "k < length fname + 21")
    case True
    from first_entry_cut(1) [OF wn(2) pm(2) b kl True] show ?thesis
      by (auto simp: build_table_alt)
  next
    case False
    then have "length fname + 21 \<le> k" by simp
    from first_entry_cut(2) [OF wn(2) pm(2) b kl this] obtain h where
      h: "readHeaderEntry ?buf 0 = Inr h" "fileName h = toString_utf8 fname"
      "packingMethod h = pm" "newOffset h = length fname + 21"
      by blast
    from h(3) pm(1) have ts: "table_start ?buf h = length (header_bytes fname pm os rs ts ds)"
      by (simp add: table_start_def h(4))
    from False have k1: "length (header_bytes fname pm os rs ts ds) \<le> k" by simp
    from assms(3) have k2: "k < length (header_bytes fname pm os rs ts ds)
        + length (table_bytes es')"
      by (simp add: tb)
    from table_loop_cut [OF wns b k1 k2, of "first_entries h"] h(1) ts
    show ?thesis by (simp add: build_table_alt)
  qed
qed

lemma product_cut:
  assumes "\<forall>e \<in> set es. well_named (fst e)"
    and "\<forall>p \<in> set ps. well_named (fst p) \<and> 0 \<notin> set (snd p)"
    and "0 \<notin> set pname"
    and "hdrs = header_bytes pname PACKING_METHOD_PRODUCT os rs ts ds
                 @ property_bytes ps @ table_bytes es"
    and "k < length hdrs"
  shows "\<exists>e. build_table (take k hdrs) = Inl e"
proof -
  let ?hd = "header_bytes pname PACKING_METHOD_PRODUCT os rs ts ds"
  let ?buf = "take k hdrs"
  have pm: "PACKING_METHOD_PRODUCT < 2 ^ 32"
    by (simp add: PACKING_METHOD_PRODUCT_def)
  have b: "?buf = take k (?hd @ property_bytes ps @ table_bytes es)"
    by (simp add: assms(4))
  from assms(5) have kl: "k \<le> length (?hd @ property_bytes ps @ table_bytes es)"
    by (simp add: assms(4))
  have lb: "length ?buf = k" using assms(5) by simp
  show ?thesis
  proof (cases "k < length pname + 21")
    case True
    from first_entry_cut(1) [OF assms(3) pm b kl True] show ?thesis
      by (auto simp: build_table_alt)
  next
    case False
    then have "length pname + 21 \<le> k" by simp
    from first_entry_cut(2) [OF assms(3) pm b kl this] obtain h where
      h: "readHeaderEntry ?buf 0 = Inr h" "packingMethod h = PACKING_METHOD_PRODUCT"
      "newOffset h = length pname + 21"
      by blast
    from h(2,3) have ts: "table_start ?buf h = property_loop ?buf (length ?hd)"
      by (simp add: table_start_def)
    from False have k1: "length ?hd \<le> k" by simp
    note pl = property_loop_cut [OF assms(2) b k1 kl]
    show ?thesis
    proof (cases "k < length ?hd + length (property_bytes ps)")
      case True
      with pl have "length ?buf \<le> property_loop ?buf (length ?hd)"
        unfolding lb by simp
      from table_loop_beyond [OF this, of "first_entries h"] h(1) ts show ?thesis
        by (simp add: build_table_alt)
    next
      case k2: False
      with pl have p: "property_loop ?buf (length ?hd) = length (?hd @ property_bytes ps)"
        by simp
      have b': "?buf = take k ((?hd @ property_bytes ps) @ table_bytes es)"
        by (simp add: assms(4))
      from k2 have k3: "length (?hd @ property_bytes ps) \<le> k" by simp
      from assms(5) have k4: "k < length (?hd @ property_bytes ps) + length (table_bytes es)"
        by (simp add: assms(4))
      from table_loop_cut [OF assms(1) b' k3 k4, of "first_entries h"] h(1) ts p
      show ?thesis by (simp add: build_table_alt)
    qed
  qed
qed

text \<open>
  Claim C5, as the code has it.  A truncated archive is the first \<open>k\<close> bytes of a
  header region \<open>hdrs\<close>, with \<open>k\<close> less than its length, so that the bytes end
  before the boundary marker has been read.  The header region is either an entry table
  whose first entry is not the product entry, or a product entry, its property block
  and an entry table; names are well formed, property values have no zero byte.  On
  every such buffer \<open>parse\<close> ends by throwing the \<open>RangeError\<close> of the 32-bit read that
  crosses the end of the buffer (the code has no other error), with the parser object
  unchanged: it neither returns a list nor runs forever.
\<close>

theorem truncated_archive_throws:
  assumes "\<forall>e \<in> set es. well_named (fst e)"
    and "\<forall>p \<in> set ps. well_named (fst p) \<and> 0 \<notin> set (snd p)"
    and "0 \<notin> set pname"
    and "hdrs = table_bytes es
           \<and> (es = [] \<or> fst (snd (hd es)) \<noteq> PACKING_METHOD_PRODUCT
                          \<and> fst (snd (hd es)) < 2 ^ 32)
         \<or> hdrs = header_bytes pname PACKING_METHOD_PRODUCT os rs ts ds
                    @ property_bytes ps @ table_bytes es"
    and "k < length hdrs"
  shows "\<exists>e. parse fuel (take k hdrs) this = (Thrown e, this)"
proof -
  from assms(4) have "\<exists>e. build_table (take k hdrs) = Inl e"
  proof
    assume "hdrs = table_bytes es
           \<and> (es = [] \<or> fst (snd (hd es)) \<noteq> PACKING_METHOD_PRODUCT
                          \<and> fst (snd (hd es)) < 2 ^ 32)"
    with plain_cut [OF assms(1), of k] assms(5) show ?thesis by simp
  next
    assume "hdrs = header_bytes pname PACKING_METHOD_PRODUCT os rs ts ds
                    @ property_bytes ps @ table_bytes es"
    from product_cut [OF assms(1-3) this assms(5)] show ?thesis .
  qed
  then show ?thesis by (auto simp: parse_def)
qed


theorem truncated_archive_throws_witness:
  "well_named (bytes_of ''test.c'')
   \<and> (30 :: nat) < length (table_bytes [(bytes_of ''test.c'', 0, 5, 0, 0, 5)])
   \<and> (\<exists>e. parse 0 (take 30 (table_bytes [(bytes_of ''test.c'', 0, 5, 0, 0, 5)]))
               (new_PBOParser ''mod.pbo'') = (Thrown e, new_PBOParser ''mod.pbo''))
   \<and> well_named (bytes_of ''prefix'') \<and> 0 \<notin> set (bytes_of ''mymod'')
   \<and> (30 :: nat) < length (header_bytes [] PACKING_METHOD_PRODUCT 0 0 0 0
               @ property_bytes [(bytes_of ''prefix'', bytes_of ''mymod'')] @ table_bytes [])
   \<and> (\<exists>e. parse 0 (take 30 (header_bytes [] PACKING_METHOD_PRODUCT 0 0 0 0
               @ property_bytes [(bytes_of ''prefix'', bytes_of ''mymod'')] @ table_bytes []))
               (new_PBOParser ''mod.pbo'') = (Thrown e, new_PBOParser ''mod.pbo''))"
  using truncated_archive_throws
      [where es = "[(bytes_of ''test.c'', 0, 5, 0, 0, 5)]" and ps = "[]" and pname = "[]"
         and hdrs = "table_bytes [(bytes_of ''test.c'', 0, 5, 0, 0, 5)]" and k = 30
         and fuel = 0 and this = "new_PBOParser ''mod.pbo''"]
    truncated_archive_throws
      [where es = "[]" and ps = "[(bytes_of ''prefix'', bytes_of ''mymod'')]" and pname = "[]"
         and os = 0 and rs = 0 and ts = 0 and ds = 0
         and hdrs = "header_bytes [] PACKING_METHOD_PRODUCT 0 0 0 0
               @ property_bytes [(bytes_of ''prefix'', bytes_of ''mymod'')] @ table_bytes []"
         and k = 30 and fuel = 0 and this = "new_PBOParser ''mod.pbo''"]
  by (simp add: well_named_def bytes_of_def table_bytes_def entry_bytes_def property_bytes_def
        boundary_bytes_def PACKING_METHOD_PRODUCT_def)

text \<open>
  Claim C5 as stated names the error \<open>MalformedArchive\<close>.  On the first 30 bytes of
  scenario A, which end inside the boundary marker, the error thrown is Node's
  \<open>ERR_OUT_OF_RANGE\<close>, from \<open>readUInt32LE\<close>.
\<close>

theorem truncated_scenario_A_counterexample:
  "parse 0 (take 30 scenario_A) (new_PBOParser ''mod.pbo'')
     = (Thrown ERR_OUT_OF_RANGE, new_PBOParser ''mod.pbo'')"
  by (simp add: scenario_A_def layout_eval parse_def reader_eval js_def)


end
